theory Spec2Isabelle
  imports Main "HOL-Library.Multiset"
begin

section \<open>Values of a comparable type\<close>

text \<open>
  The type parameters of \<open>BiMap[T, U comparable]\<close> may be instantiated with any Go type
  that has \<open>==\<close>. As a map key, a value of such a type is of one of three kinds:
  \<^item> \<open>Val x\<close>: an ordinary value. It is equal to itself, and two ordinary values are
    \<open>==\<close> exactly when they are the same value of the model (values that \<open>==\<close> cannot
    tell apart, as the two zeros of a float, are one value here);
  \<^item> \<open>NaN x\<close>: a value that is not equal to itself, nor to any other value: a
    floating-point NaN, or a struct, array or interface value holding one. It can be
    hashed, so it can be stored as a key, but no lookup ever finds it;
  \<^item> \<open>Unhashable x\<close>: an interface value whose dynamic type has no \<open>==\<close> (a slice, a
    map, a function). Using it as a map key panics, in a lookup, an assignment and a
    \<open>delete\<close> alike, also on an empty or nil map.

  Equality of the model is identity of values: \<open>NaN x = NaN x\<close> holds, and says that the
  two are the same value, as when a method returns the value it was given. What Go's
  \<open>k == k\<close> answers is \<open>self_equal k\<close>.
\<close>

datatype 'a gval = Val 'a | NaN 'a | Unhashable 'a

fun hashable :: "'a gval \<Rightarrow> bool" where
  "hashable (Val x) = True"
| "hashable (NaN x) = True"
| "hashable (Unhashable x) = False"

fun self_equal :: "'a gval \<Rightarrow> bool" where
  \<comment> \<open>\<open>k == k\<close>\<close>
  "self_equal (Val x) = True"
| "self_equal (NaN x) = False"
| "self_equal (Unhashable x) = False"

section \<open>Go maps as objects in a store\<close>

text \<open>
  The entries of a map: those under ordinary keys, at most one for each key, and those
  under keys that are not equal to themselves, of which there may be several alike.
\<close>

record ('k, 'v) table =
  reg :: "'k \<rightharpoonup> 'v"
  irr :: "('k \<times> 'v) multiset"

definition empty_table :: "('k, 'v) table" where
  "empty_table = \<lparr>reg = Map.empty, irr = {#}\<rparr>"

fun t_lookup :: "('k, 'v) table \<Rightarrow> 'k gval \<Rightarrow> 'v option" where
  \<comment> \<open>what \<open>mp[k]\<close> finds, for a key that can be hashed\<close>
  "t_lookup tbl (Val x) = reg tbl x"
| "t_lookup tbl (NaN x) = None"
| "t_lookup tbl (Unhashable x) = None"

fun t_put :: "('k, 'v) table \<Rightarrow> 'k gval \<Rightarrow> 'v \<Rightarrow> ('k, 'v) table" where
  \<comment> \<open>what \<open>mp[k] = v\<close> does to the entries, for a key that can be hashed\<close>
  "t_put tbl (Val x) v = tbl\<lparr>reg := (reg tbl)(x \<mapsto> v)\<rparr>"
| "t_put tbl (NaN x) v = tbl\<lparr>irr := add_mset (x, v) (irr tbl)\<rparr>"
| "t_put tbl (Unhashable x) v = tbl"

fun t_del :: "('k, 'v) table \<Rightarrow> 'k gval \<Rightarrow> ('k, 'v) table" where
  \<comment> \<open>what \<open>delete(mp, k)\<close> does to the entries, for a key that can be hashed\<close>
  "t_del tbl (Val x) = tbl\<lparr>reg := (reg tbl)(x := None)\<rparr>"
| "t_del tbl (NaN x) = tbl"
| "t_del tbl (Unhashable x) = tbl"

definition t_len :: "('k, 'v) table \<Rightarrow> nat" where
  \<comment> \<open>\<open>len(mp)\<close>: the number of entries\<close>
  "t_len tbl = card (dom (reg tbl)) + size (irr tbl)"

definition t_keys :: "('k, 'v) table \<Rightarrow> 'k gval set" where
  \<comment> \<open>the keys of the entries\<close>
  "t_keys tbl = Val ` dom (reg tbl) \<union> NaN ` fst ` set_mset (irr tbl)"

definition t_entries :: "('k, 'v) table \<Rightarrow> ('k gval \<times> 'v) multiset" where
  \<comment> \<open>the entries, each as often as the map holds it\<close>
  "t_entries tbl =
     image_mset (\<lambda>x. (Val x, the (reg tbl x))) (mset_set (dom (reg tbl))) +
     image_mset (\<lambda>(x, v). (NaN x, v)) (irr tbl)"

text \<open>
  A \<open>range\<close> over a map yields entries of the map, in an order of the runtime's choosing.
  The runtime's choice is a list of entries \<open>kvs\<close>; what the loop visits are the members
  of that list that the map holds.
\<close>

fun t_holds :: "('k, 'v) table \<Rightarrow> 'k gval \<times> 'v \<Rightarrow> bool" where
  "t_holds tbl (Val x, v) = (reg tbl x = Some v)"
| "t_holds tbl (NaN x, v) = ((x, v) \<in># irr tbl)"
| "t_holds tbl (Unhashable x, v) = False"

definition t_range :: "('k, 'v) table \<Rightarrow> ('k gval \<times> 'v) list \<Rightarrow> ('k gval \<times> 'v) list" where
  "t_range tbl kvs = filter (t_holds tbl) kvs"

text \<open>
  A Go map value is a reference to a hash table: two variables may hold the same
  reference, and a write through one is seen through the other. The model keeps the
  tables in a store and the references as addresses, so that the difference between
  handing out a reference and handing out a copy can be stated.

  An address is an index into the list of allocated tables; \<open>make\<close> appends a new empty
  table, so its address is fresh by construction. An address with no table behind it
  stands for Go's nil map: indexing it finds nothing, \<open>len\<close> is 0, \<open>delete\<close> does
  nothing and an assignment panics.
\<close>

type_synonym addr = nat

datatype fault =
    NilMapWrite    \<comment> \<open>panic: assignment to entry in nil map\<close>
  | UnhashableKey  \<comment> \<open>panic: runtime error: hash of unhashable type\<close>

definition m_at :: "('k, 'v) table list \<Rightarrow> addr \<Rightarrow> ('k, 'v) table" where
  "m_at objs a = (if a < length objs then objs ! a else empty_table)"

definition m_index :: "('k, 'v) table list \<Rightarrow> addr \<Rightarrow> 'k gval \<Rightarrow> fault + 'v option" where
  \<comment> \<open>\<open>v, ok := mp[k]\<close>: \<open>Some v\<close> when \<open>ok\<close>\<close>
  "m_index objs a k =
     (if hashable k then Inr (t_lookup (m_at objs a) k) else Inl UnhashableKey)"

definition m_has :: "('k, 'v) table list \<Rightarrow> addr \<Rightarrow> 'k gval \<Rightarrow> fault + bool" where
  \<comment> \<open>\<open>_, ok = mp[k]\<close>\<close>
  "m_has objs a k =
     (case m_index objs a k of Inl e \<Rightarrow> Inl e | Inr r \<Rightarrow> Inr (r \<noteq> None))"

definition m_assign ::
  "('k, 'v) table list \<Rightarrow> addr \<Rightarrow> 'k gval \<Rightarrow> 'v \<Rightarrow> fault + ('k, 'v) table list" where
  \<comment> \<open>\<open>mp[k] = v\<close>\<close>
  "m_assign objs a k v =
     (if \<not> a < length objs then Inl NilMapWrite
      else if \<not> hashable k then Inl UnhashableKey
      else Inr (objs[a := t_put (objs ! a) k v]))"

definition m_delete ::
  "('k, 'v) table list \<Rightarrow> addr \<Rightarrow> 'k gval \<Rightarrow> fault + ('k, 'v) table list" where
  \<comment> \<open>\<open>delete(mp, k)\<close>\<close>
  "m_delete objs a k =
     (if \<not> hashable k then Inl UnhashableKey
      else if a < length objs then Inr (objs[a := t_del (objs ! a) k])
      else Inr objs)"

definition m_make :: "('k, 'v) table list \<Rightarrow> addr \<times> ('k, 'v) table list" where
  \<comment> \<open>\<open>make(map[K]V)\<close>, also with a capacity hint\<close>
  "m_make objs = (length objs, objs @ [empty_table])"

text \<open>
  The store of a program that uses \<open>BiMap[T, U]\<close>: the tables of type \<open>map[T]U\<close> and
  those of type \<open>map[U]T\<close>. A reference is typed, so a \<open>map[T]U\<close> never aliases a
  \<open>map[U]T\<close>.
\<close>

record ('t, 'u) heap =
  tu_objs :: "('t, 'u gval) table list"
  ut_objs :: "('u, 't gval) table list"

section \<open>The BiMap struct\<close>

text \<open>
  \<open>type BiMap[T, U comparable] struct { rwLock sync.RWMutex; front map[T]U; back map[U]T }\<close>.
  The two map fields are references. Every method body runs between acquiring
  \<open>rwLock\<close> and releasing it (deferred, so on every return); the model is of one caller
  at a time, for whom the lock is free at entry and free again at exit, and the lock is
  not part of the state.
\<close>

record BiMap =
  front :: addr
  back' :: addr

datatype error = ErrKeyValExists  \<comment> \<open>\<open>errors.New("key or value exists")\<close>\<close>

definition front_of :: "('t, 'u) heap \<Rightarrow> BiMap \<Rightarrow> ('t, 'u gval) table" where
  \<comment> \<open>the table behind \<open>m.front\<close>\<close>
  "front_of h m = m_at (tu_objs h) (front m)"

definition back_of :: "('t, 'u) heap \<Rightarrow> BiMap \<Rightarrow> ('u, 't gval) table" where
  \<comment> \<open>the table behind \<open>m.back\<close>\<close>
  "back_of h m = m_at (ut_objs h) (back' m)"

definition allocated :: "('t, 'u) heap \<Rightarrow> BiMap \<Rightarrow> bool" where
  \<comment> \<open>neither field is nil\<close>
  "allocated h m = (front m < length (tu_objs h) \<and> back' m < length (ut_objs h))"

subsection \<open>Construction\<close>

text \<open>
  The only implementation of the \<open>option\<close> interface is \<open>initialOption\<close>, a
  \<open>map[T]U\<close> under another name; \<open>WithInitialMap\<close> converts its argument without
  copying it.
\<close>

datatype bimap_option = InitialOption addr

definition WithInitialMap :: "addr \<Rightarrow> bimap_option" where
  "WithInitialMap mp = InitialOption mp"

text \<open>
  \<open>for k, v := range io { m.front[k] = v; m.back[v] = k }\<close>, over the entries that
  \<open>range\<close> yields.
\<close>

fun apply_loop ::
  "('t, 'u) heap \<Rightarrow> BiMap \<Rightarrow> ('t gval \<times> 'u gval) list \<Rightarrow> fault + ('t, 'u) heap" where
  "apply_loop h m [] = Inr h"
| "apply_loop h m ((k, v) # kvs) =
     (case m_assign (tu_objs h) (front m) k v of
        Inl e \<Rightarrow> Inl e
      | Inr tus \<Rightarrow>
          (case m_assign (ut_objs h) (back' m) v k of
             Inl e \<Rightarrow> Inl e
           | Inr uts \<Rightarrow> apply_loop (h\<lparr>tu_objs := tus, ut_objs := uts\<rparr>) m kvs))"

fun initialOption_apply ::
  "bimap_option \<Rightarrow> ('t, 'u) heap \<Rightarrow> BiMap \<Rightarrow> ('t gval \<times> 'u gval) list
     \<Rightarrow> fault + ('t, 'u) heap" where
  "initialOption_apply (InitialOption io) h m kvs =
     apply_loop h m (t_range (m_at (tu_objs h) io) kvs)"

text \<open>
  \<open>func New[T, U comparable](...option[T, U]) *BiMap[T, U]\<close>: the variadic parameter
  has no name, and the body allocates the two tables and returns.
\<close>

definition New :: "('t, 'u) heap \<Rightarrow> bimap_option list \<Rightarrow> BiMap \<times> ('t, 'u) heap" where
  "New h options =
     (let (f, tus) = m_make (tu_objs h);
          (b, uts) = m_make (ut_objs h)
      in (\<lparr>front = f, back' = b\<rparr>, h\<lparr>tu_objs := tus, ut_objs := uts\<rparr>))"

subsection \<open>Lookup\<close>

text \<open>
  \<open>v, ok := m.front[key]; return v, ok\<close>. For a missing key Go yields the zero value of
  the value type, which for a type parameter is whatever the instantiation says: the
  argument \<open>zero\<close>.
\<close>

definition GetFront ::
  "'u gval \<Rightarrow> ('t, 'u) heap \<Rightarrow> BiMap \<Rightarrow> 't gval \<Rightarrow> fault + ('u gval \<times> bool)" where
  "GetFront zero h m key =
     (case m_index (tu_objs h) (front m) key of
        Inl e \<Rightarrow> Inl e
      | Inr (Some v) \<Rightarrow> Inr (v, True)
      | Inr None \<Rightarrow> Inr (zero, False))"

definition GetBack ::
  "'t gval \<Rightarrow> ('t, 'u) heap \<Rightarrow> BiMap \<Rightarrow> 'u gval \<Rightarrow> fault + ('t gval \<times> bool)" where
  "GetBack zero h m key =
     (case m_index (ut_objs h) (back' m) key of
        Inl e \<Rightarrow> Inl e
      | Inr (Some v) \<Rightarrow> Inr (v, True)
      | Inr None \<Rightarrow> Inr (zero, False))"

subsection \<open>Insertion\<close>

text \<open>
  \<open>if _, ok = m.front[key]; !ok { _, ok = m.back[val] }; if ok { return ErrKeyValExists }\<close>,
  then the two assignments. The result is the returned error (\<open>None\<close> for nil) and the
  store, or a panic.
\<close>

definition SetFront ::
  "('t, 'u) heap \<Rightarrow> BiMap \<Rightarrow> 't gval \<Rightarrow> 'u gval \<Rightarrow> fault + (error option \<times> ('t, 'u) heap)" where
  "SetFront h m key val =
     (case m_has (tu_objs h) (front m) key of
        Inl e \<Rightarrow> Inl e
      | Inr ok \<Rightarrow>
          (case (if \<not> ok then m_has (ut_objs h) (back' m) val else Inr ok) of
             Inl e \<Rightarrow> Inl e
           | Inr ok \<Rightarrow>
               if ok then Inr (Some ErrKeyValExists, h)
               else (case m_assign (tu_objs h) (front m) key val of
                       Inl e \<Rightarrow> Inl e
                     | Inr tus \<Rightarrow>
                         (case m_assign (ut_objs h) (back' m) val key of
                            Inl e \<Rightarrow> Inl e
                          | Inr uts \<Rightarrow> Inr (None, h\<lparr>tu_objs := tus, ut_objs := uts\<rparr>)))))"

definition SetBack ::
  "('t, 'u) heap \<Rightarrow> BiMap \<Rightarrow> 'u gval \<Rightarrow> 't gval \<Rightarrow> fault + (error option \<times> ('t, 'u) heap)" where
  "SetBack h m key val =
     (case m_has (ut_objs h) (back' m) key of
        Inl e \<Rightarrow> Inl e
      | Inr ok \<Rightarrow>
          (case (if \<not> ok then m_has (tu_objs h) (front m) val else Inr ok) of
             Inl e \<Rightarrow> Inl e
           | Inr ok \<Rightarrow>
               if ok then Inr (Some ErrKeyValExists, h)
               else (case m_assign (ut_objs h) (back' m) key val of
                       Inl e \<Rightarrow> Inl e
                     | Inr uts \<Rightarrow>
                         (case m_assign (tu_objs h) (front m) val key of
                            Inl e \<Rightarrow> Inl e
                          | Inr tus \<Rightarrow> Inr (None, h\<lparr>tu_objs := tus, ut_objs := uts\<rparr>)))))"

subsection \<open>Deletion\<close>

text \<open>
  \<open>v, ok := m.front[key]; if !ok { return }; delete(m.front, key); delete(m.back, v)\<close>.
\<close>

definition DeleteFront :: "('t, 'u) heap \<Rightarrow> BiMap \<Rightarrow> 't gval \<Rightarrow> fault + ('t, 'u) heap" where
  "DeleteFront h m key =
     (case m_index (tu_objs h) (front m) key of
        Inl e \<Rightarrow> Inl e
      | Inr None \<Rightarrow> Inr h
      | Inr (Some v) \<Rightarrow>
          (case m_delete (tu_objs h) (front m) key of
             Inl e \<Rightarrow> Inl e
           | Inr tus \<Rightarrow>
               (case m_delete (ut_objs h) (back' m) v of
                  Inl e \<Rightarrow> Inl e
                | Inr uts \<Rightarrow> Inr (h\<lparr>tu_objs := tus, ut_objs := uts\<rparr>))))"

definition DeleteBack :: "('t, 'u) heap \<Rightarrow> BiMap \<Rightarrow> 'u gval \<Rightarrow> fault + ('t, 'u) heap" where
  "DeleteBack h m key =
     (case m_index (ut_objs h) (back' m) key of
        Inl e \<Rightarrow> Inl e
      | Inr None \<Rightarrow> Inr h
      | Inr (Some v) \<Rightarrow>
          (case m_delete (ut_objs h) (back' m) key of
             Inl e \<Rightarrow> Inl e
           | Inr uts \<Rightarrow>
               (case m_delete (tu_objs h) (front m) v of
                  Inl e \<Rightarrow> Inl e
                | Inr tus \<Rightarrow> Inr (h\<lparr>tu_objs := tus, ut_objs := uts\<rparr>))))"

subsection \<open>Snapshots, length, enumeration\<close>

text \<open>
  \<open>for k, v := range src { nm[k] = v }\<close>, over the entries that \<open>range\<close> yields. The
  loop does not write to \<open>src\<close>, so they are entries of \<open>src\<close> as it was before the loop.
\<close>

fun copy_loop ::
  "('k, 'v) table list \<Rightarrow> addr \<Rightarrow> ('k gval \<times> 'v) list \<Rightarrow> fault + ('k, 'v) table list" where
  "copy_loop objs nm [] = Inr objs"
| "copy_loop objs nm ((k, v) # kvs) =
     (case m_assign objs nm k v of
        Inl e \<Rightarrow> Inl e
      | Inr objs' \<Rightarrow> copy_loop objs' nm kvs)"

definition Front ::
  "('t, 'u) heap \<Rightarrow> BiMap \<Rightarrow> ('t gval \<times> 'u gval) list \<Rightarrow> fault + (addr \<times> ('t, 'u) heap)" where
  "Front h m kvs =
     (let (nm, tus) = m_make (tu_objs h)
      in case copy_loop tus nm (t_range (front_of h m) kvs) of
           Inl e \<Rightarrow> Inl e
         | Inr tus' \<Rightarrow> Inr (nm, h\<lparr>tu_objs := tus'\<rparr>))"

definition Back ::
  "('t, 'u) heap \<Rightarrow> BiMap \<Rightarrow> ('u gval \<times> 't gval) list \<Rightarrow> fault + (addr \<times> ('t, 'u) heap)" where
  "Back h m kvs =
     (let (nm, uts) = m_make (ut_objs h)
      in case copy_loop uts nm (t_range (back_of h m) kvs) of
           Inl e \<Rightarrow> Inl e
         | Inr uts' \<Rightarrow> Inr (nm, h\<lparr>ut_objs := uts'\<rparr>))"

definition Len :: "('t, 'u) heap \<Rightarrow> BiMap \<Rightarrow> int" where
  \<comment> \<open>\<open>len(m.front)\<close>\<close>
  "Len h m = int (t_len (front_of h m))"

text \<open>
  \<open>for f, b := range m.front { fn(f, b) }\<close>. The visitor returns nothing; what it does
  is done to the variables it has captured, here a state of the caller's.
\<close>

definition For ::
  "('t, 'u) heap \<Rightarrow> BiMap \<Rightarrow> ('t gval \<times> 'u gval) list
     \<Rightarrow> ('t gval \<Rightarrow> 'u gval \<Rightarrow> 's \<Rightarrow> 's) \<Rightarrow> 's \<Rightarrow> 's" where
  "For h m kvs fn s = fold (\<lambda>(f, b) s. fn f b s) (t_range (front_of h m) kvs) s"

subsection \<open>Rendering\<close>

text \<open>
  \<open>strings.Join\<close> of Go's standard library: the empty string for no elements, the
  element itself for one, and otherwise the first element followed by the separator and
  the next element, for each of the others.
\<close>

fun Join :: "string list \<Rightarrow> string \<Rightarrow> string" where
  "Join [] sep = []"
| "Join [e] sep = e"
| "Join (e # es) sep = fold (\<lambda>s b. b @ sep @ s) es e"

text \<open>
  \<open>fmt.Sprintf("%v:%v", f, b)\<close>: the default formats of the two type arguments are
  the arguments \<open>fmtT\<close> and \<open>fmtU\<close>.
\<close>

definition Sprintf_pair ::
  "('t gval \<Rightarrow> string) \<Rightarrow> ('u gval \<Rightarrow> string) \<Rightarrow> 't gval \<Rightarrow> 'u gval \<Rightarrow> string" where
  "Sprintf_pair fmtT fmtU f b = fmtT f @ '':'' @ fmtU b"

definition String_pairs ::
  "('t gval \<Rightarrow> string) \<Rightarrow> ('u gval \<Rightarrow> string) \<Rightarrow> ('t, 'u) heap \<Rightarrow> BiMap
     \<Rightarrow> ('t gval \<times> 'u gval) list \<Rightarrow> string list" where
  \<comment> \<open>the slice \<open>pairs\<close> after the loop\<close>
  "String_pairs fmtT fmtU h m kvs =
     fold (\<lambda>(f, b) pairs. pairs @ [Sprintf_pair fmtT fmtU f b]) (t_range (front_of h m) kvs) []"

definition String ::
  "('t gval \<Rightarrow> string) \<Rightarrow> ('u gval \<Rightarrow> string) \<Rightarrow> ('t, 'u) heap \<Rightarrow> BiMap
     \<Rightarrow> ('t gval \<times> 'u gval) list \<Rightarrow> string" where
  "String fmtT fmtU h m kvs = ''map['' @ Join (String_pairs fmtT fmtU h m kvs) '' '' @ '']''"

section \<open>Callers\<close>

text \<open>
  What the runtime may choose for a \<open>range\<close> over a table: every entry once. The entries
  under ordinary keys and those under keys that are not equal to themselves, as they
  come in the list:
\<close>

fun val_part :: "('k gval \<times> 'v) list \<Rightarrow> ('k \<times> 'v) list" where
  "val_part [] = []"
| "val_part ((Val x, v) # kvs) = (x, v) # val_part kvs"
| "val_part ((NaN x, v) # kvs) = val_part kvs"
| "val_part ((Unhashable x, v) # kvs) = val_part kvs"

fun nan_part :: "('k gval \<times> 'v) list \<Rightarrow> ('k \<times> 'v) list" where
  "nan_part [] = []"
| "nan_part ((Val x, v) # kvs) = nan_part kvs"
| "nan_part ((NaN x, v) # kvs) = (x, v) # nan_part kvs"
| "nan_part ((Unhashable x, v) # kvs) = nan_part kvs"

definition range_order :: "('k, 'v) table \<Rightarrow> ('k gval \<times> 'v) list \<Rightarrow> bool" where
  "range_order tbl kvs =
     (list_all (\<lambda>(k, v). hashable k) kvs \<and>
      distinct (map fst (val_part kvs)) \<and>
      map_of (val_part kvs) = reg tbl \<and>
      mset (nan_part kvs) = irr tbl)"

text \<open>
  What an instantiation \<open>BiMap[T, U]\<close> fixes: the zero values and the default formats
  of the two types.
\<close>

record ('t, 'u) inst =
  zeroT :: "'t gval"
  zeroU :: "'u gval"
  fmtT :: "'t gval \<Rightarrow> string"
  fmtU :: "'u gval \<Rightarrow> string"

text \<open>A call of a method, with the runtime's choice of order where the method ranges.\<close>

datatype ('t, 'u, 's) call =
    CallGetFront "'t gval"
  | CallGetBack "'u gval"
  | CallSetFront "'t gval" "'u gval"
  | CallSetBack "'u gval" "'t gval"
  | CallDeleteFront "'t gval"
  | CallDeleteBack "'u gval"
  | CallFront "('t gval \<times> 'u gval) list"
  | CallBack "('u gval \<times> 't gval) list"
  | CallLen
  | CallFor "('t gval \<times> 'u gval) list" "'t gval \<Rightarrow> 'u gval \<Rightarrow> 's \<Rightarrow> 's" 's
  | CallString "('t gval \<times> 'u gval) list"

datatype ('t, 'u, 's) ret =
    RetU "'u gval" bool
  | RetT "'t gval" bool
  | RetError "error option"
  | RetNothing
  | RetMap addr
  | RetInt int
  | RetState 's
  | RetString string

fun exec ::
  "('t, 'u) inst \<Rightarrow> ('t, 'u) heap \<Rightarrow> BiMap \<Rightarrow> ('t, 'u, 's) call
     \<Rightarrow> fault + (('t, 'u, 's) ret \<times> ('t, 'u) heap)" where
  "exec T h m (CallGetFront k) =
     (case GetFront (zeroU T) h m k of Inl e \<Rightarrow> Inl e | Inr (v, ok) \<Rightarrow> Inr (RetU v ok, h))"
| "exec T h m (CallGetBack k) =
     (case GetBack (zeroT T) h m k of Inl e \<Rightarrow> Inl e | Inr (v, ok) \<Rightarrow> Inr (RetT v ok, h))"
| "exec T h m (CallSetFront k v) =
     (case SetFront h m k v of Inl e \<Rightarrow> Inl e | Inr (err, h') \<Rightarrow> Inr (RetError err, h'))"
| "exec T h m (CallSetBack k v) =
     (case SetBack h m k v of Inl e \<Rightarrow> Inl e | Inr (err, h') \<Rightarrow> Inr (RetError err, h'))"
| "exec T h m (CallDeleteFront k) =
     (case DeleteFront h m k of Inl e \<Rightarrow> Inl e | Inr h' \<Rightarrow> Inr (RetNothing, h'))"
| "exec T h m (CallDeleteBack k) =
     (case DeleteBack h m k of Inl e \<Rightarrow> Inl e | Inr h' \<Rightarrow> Inr (RetNothing, h'))"
| "exec T h m (CallFront kvs) =
     (case Front h m kvs of Inl e \<Rightarrow> Inl e | Inr (nm, h') \<Rightarrow> Inr (RetMap nm, h'))"
| "exec T h m (CallBack kvs) =
     (case Back h m kvs of Inl e \<Rightarrow> Inl e | Inr (nm, h') \<Rightarrow> Inr (RetMap nm, h'))"
| "exec T h m CallLen = Inr (RetInt (Len h m), h)"
| "exec T h m (CallFor kvs fn s) = Inr (RetState (For h m kvs fn s), h)"
| "exec T h m (CallString kvs) = Inr (RetString (String (fmtT T) (fmtU T) h m kvs), h)"

fun run ::
  "('t, 'u) inst \<Rightarrow> ('t, 'u) heap \<Rightarrow> BiMap \<Rightarrow> ('t, 'u, 's) call list \<Rightarrow> fault + ('t, 'u) heap" where
  "run T h m [] = Inr h"
| "run T h m (c # cs) =
     (case exec T h m c of Inl e \<Rightarrow> Inl e | Inr (r, h') \<Rightarrow> run T h' m cs)"

text \<open>
  The calls whose key and value arguments can all be hashed, and the calls that do not
  insert a value that is not equal to itself.
\<close>

fun hashable_call :: "('t, 'u, 's) call \<Rightarrow> bool" where
  "hashable_call (CallGetFront k) = hashable k"
| "hashable_call (CallGetBack k) = hashable k"
| "hashable_call (CallSetFront k v) = (hashable k \<and> hashable v)"
| "hashable_call (CallSetBack k v) = (hashable k \<and> hashable v)"
| "hashable_call (CallDeleteFront k) = hashable k"
| "hashable_call (CallDeleteBack k) = hashable k"
| "hashable_call c = True"

fun is_nan :: "'a gval \<Rightarrow> bool" where
  "is_nan (Val x) = False"
| "is_nan (NaN x) = True"
| "is_nan (Unhashable x) = False"

fun nan_free_call :: "('t, 'u, 's) call \<Rightarrow> bool" where
  "nan_free_call (CallSetFront k v) = (\<not> is_nan k \<and> \<not> is_nan v)"
| "nan_free_call (CallSetBack k v) = (\<not> is_nan k \<and> \<not> is_nan v)"
| "nan_free_call c = True"

text \<open>
  What the holder of a reference to a \<open>map[T]U\<close> can do to the table behind it:
  assign an entry, delete one.
\<close>

datatype ('k, 'v) mutation = Assign "'k gval" 'v | Delete "'k gval"

fun mutate ::
  "('k, 'v) table list \<Rightarrow> addr \<Rightarrow> ('k, 'v) mutation list \<Rightarrow> fault + ('k, 'v) table list" where
  "mutate objs a [] = Inr objs"
| "mutate objs a (Assign k v # ms) =
     (case m_assign objs a k v of Inl e \<Rightarrow> Inl e | Inr objs' \<Rightarrow> mutate objs' a ms)"
| "mutate objs a (Delete k # ms) =
     (case m_delete objs a k of Inl e \<Rightarrow> Inl e | Inr objs' \<Rightarrow> mutate objs' a ms)"

fun hashable_mutation :: "('k, 'v) mutation \<Rightarrow> bool" where
  "hashable_mutation (Assign k v) = hashable k"
| "hashable_mutation (Delete k) = hashable k"

section \<open>The two tables as inverses\<close>

definition inverse_consistent :: "('t, 'u) heap \<Rightarrow> BiMap \<Rightarrow> bool" where
  "inverse_consistent h m =
     (\<forall>f b. (t_lookup (front_of h m) f = Some b) = (t_lookup (back_of h m) b = Some f))"

text \<open>
  What a method of \<open>m\<close> may do to the store: it may allocate, and it may change the two
  tables of \<open>m\<close>; every other table that was there is there unchanged.
\<close>

definition frame :: "('t, 'u) heap \<Rightarrow> BiMap \<Rightarrow> ('t, 'u) heap \<Rightarrow> bool" where
  "frame h m h' =
     (length (tu_objs h) \<le> length (tu_objs h') \<and>
      length (ut_objs h) \<le> length (ut_objs h') \<and>
      (\<forall>a<length (tu_objs h). a \<noteq> front m \<longrightarrow> m_at (tu_objs h') a = m_at (tu_objs h) a) \<and>
      (\<forall>a<length (ut_objs h). a \<noteq> back' m \<longrightarrow> m_at (ut_objs h') a = m_at (ut_objs h) a))"

text \<open>
  The state of a map that has only ever been given ordinary values: both tables
  allocated, each the inverse of the other, finitely many entries, none of them under a
  key that is not equal to itself.
\<close>

definition consistent :: "('t, 'u) heap \<Rightarrow> BiMap \<Rightarrow> bool" where
  "consistent h m =
     (allocated h m \<and> inverse_consistent h m \<and> finite (dom (reg (front_of h m))) \<and>
      irr (front_of h m) = {#} \<and> irr (back_of h m) = {#})"

text \<open>
  A map on which a deletion cannot panic: every value that a lookup can find can itself
  be hashed, as a key of the other table.
\<close>

definition values_hashable :: "('t, 'u) heap \<Rightarrow> BiMap \<Rightarrow> bool" where
  "values_hashable h m =
     ((\<forall>k v. t_lookup (front_of h m) k = Some v \<longrightarrow> hashable v) \<and>
      (\<forall>k v. t_lookup (back_of h m) k = Some v \<longrightarrow> hashable v))"

text \<open>
  The rendering as the specification words it: the tokens, with a single space between
  each two neighbours.
\<close>

fun space_joined :: "string list \<Rightarrow> string" where
  "space_joined [] = []"
| "space_joined [t] = t"
| "space_joined (t # ts) = t @ '' '' @ space_joined ts"


section \<open>Tables\<close>

lemma t_lookup_Some: "t_lookup tbl k = Some v \<Longrightarrow> \<exists>x. k = Val x \<and> reg tbl x = Some v"
  by (cases k) simp_all

lemma t_lookup_hashable: "t_lookup tbl k = Some v \<Longrightarrow> hashable k \<and> self_equal k"
  by (cases k) simp_all

lemma t_lookup_empty: "t_lookup empty_table k = None"
  by (cases k) (simp_all add: empty_table_def)

lemma t_del_empty: "t_del empty_table k = empty_table"
  by (cases k) (simp_all add: empty_table_def)

lemma t_lookup_put:
  "hashable k \<Longrightarrow>
     t_lookup (t_put tbl k v) k' = (if k' = k \<and> self_equal k then Some v else t_lookup tbl k')"
  by (cases k; cases k') auto

lemma t_lookup_del:
  "t_lookup (t_del tbl k) k' = (if k' = k \<and> self_equal k then None else t_lookup tbl k')"
  by (cases k; cases k') auto

section \<open>The store primitives\<close>

lemma m_at_update:
  "a < length objs \<Longrightarrow> m_at (objs[a := tbl]) a' = (if a' = a then tbl else m_at objs a')"
  by (simp add: m_at_def)

lemma m_at_nth: "a < length objs \<Longrightarrow> objs ! a = m_at objs a"
  by (simp add: m_at_def)

lemma m_at_append_old: "a < length objs \<Longrightarrow> m_at (objs @ xs) a = m_at objs a"
  by (simp add: m_at_def nth_append)

lemma m_at_append_new: "m_at (objs @ [tbl]) (length objs) = tbl"
  by (simp add: m_at_def)

lemma m_index_hashable: "hashable k \<Longrightarrow> m_index objs a k = Inr (t_lookup (m_at objs a) k)"
  by (simp add: m_index_def)

lemma m_index_unhashable: "\<not> hashable k \<Longrightarrow> m_index objs a k = Inl UnhashableKey"
  by (simp add: m_index_def)

lemma m_has_hashable: "hashable k \<Longrightarrow> m_has objs a k = Inr (t_lookup (m_at objs a) k \<noteq> None)"
  by (simp add: m_has_def m_index_def)

lemma m_has_unhashable: "\<not> hashable k \<Longrightarrow> m_has objs a k = Inl UnhashableKey"
  by (simp add: m_has_def m_index_def)

lemma m_assign_ok:
  "a < length objs \<Longrightarrow> hashable k \<Longrightarrow>
     m_assign objs a k v = Inr (objs[a := t_put (m_at objs a) k v])"
  by (simp add: m_assign_def m_at_def)

lemma m_assign_Inr:
  "m_assign objs a k v = Inr objs' \<longleftrightarrow>
     a < length objs \<and> hashable k \<and> objs' = objs[a := t_put (m_at objs a) k v]"
  by (auto simp: m_assign_def m_at_def)

lemma m_delete_ok:
  "hashable k \<Longrightarrow> m_delete objs a k = Inr (objs[a := t_del (m_at objs a) k])"
  by (simp add: m_delete_def m_at_def list_update_beyond not_less)

lemma m_delete_unhashable: "\<not> hashable k \<Longrightarrow> m_delete objs a k = Inl UnhashableKey"
  by (simp add: m_delete_def)

lemma m_at_delete:
  "m_at (objs[a := t_del (m_at objs a) k]) a'
     = (if a' = a then t_del (m_at objs a) k else m_at objs a')"
  by (auto simp: m_at_def t_del_empty)

section \<open>Writing the two tables of a map\<close>

lemma tables_update:
  assumes "front m < length (tu_objs h) \<or> F = front_of h m"
    and "back' m < length (ut_objs h) \<or> B = back_of h m"
  shows "front_of (h\<lparr>tu_objs := (tu_objs h)[front m := F], ut_objs := (ut_objs h)[back' m := B]\<rparr>) m = F"
    and "back_of (h\<lparr>tu_objs := (tu_objs h)[front m := F], ut_objs := (ut_objs h)[back' m := B]\<rparr>) m = B"
    and "frame h m (h\<lparr>tu_objs := (tu_objs h)[front m := F], ut_objs := (ut_objs h)[back' m := B]\<rparr>)"
    and "allocated (h\<lparr>tu_objs := (tu_objs h)[front m := F], ut_objs := (ut_objs h)[back' m := B]\<rparr>) m
           = allocated h m"
  using assms
  by (auto simp: front_of_def back_of_def frame_def allocated_def m_at_def)

section \<open>Lookup\<close>

lemma GetFront_hashable:
  "hashable k \<Longrightarrow>
     GetFront z h m k = Inr (case t_lookup (front_of h m) k of Some v \<Rightarrow> (v, True) | None \<Rightarrow> (z, False))"
  by (simp add: GetFront_def m_index_def front_of_def split: option.splits)

lemma GetBack_hashable:
  "hashable k \<Longrightarrow>
     GetBack z h m k = Inr (case t_lookup (back_of h m) k of Some v \<Rightarrow> (v, True) | None \<Rightarrow> (z, False))"
  by (simp add: GetBack_def m_index_def back_of_def split: option.splits)

lemma GetFront_unhashable: "\<not> hashable k \<Longrightarrow> GetFront z h m k = Inl UnhashableKey"
  by (simp add: GetFront_def m_index_def)

lemma GetBack_unhashable: "\<not> hashable k \<Longrightarrow> GetBack z h m k = Inl UnhashableKey"
  by (simp add: GetBack_def m_index_def)

lemma GetFront_found: "GetFront z h m k = Inr (v, True) \<longleftrightarrow> t_lookup (front_of h m) k = Some v"
proof (cases "hashable k")
  case True
  then show ?thesis by (auto simp: GetFront_hashable split: option.splits)
next
  case False
  then have "t_lookup (front_of h m) k = None" by (cases k) simp_all
  with False show ?thesis by (simp add: GetFront_unhashable)
qed

lemma GetBack_found: "GetBack z h m k = Inr (v, True) \<longleftrightarrow> t_lookup (back_of h m) k = Some v"
proof (cases "hashable k")
  case True
  then show ?thesis by (auto simp: GetBack_hashable split: option.splits)
next
  case False
  then have "t_lookup (back_of h m) k = None" by (cases k) simp_all
  with False show ?thesis by (simp add: GetBack_unhashable)
qed

lemma GetFront_missing:
  "hashable k \<Longrightarrow> t_lookup (front_of h m) k = None \<Longrightarrow> GetFront z h m k = Inr (z, False)"
  by (simp add: GetFront_hashable)

lemma GetBack_missing:
  "hashable k \<Longrightarrow> t_lookup (back_of h m) k = None \<Longrightarrow> GetBack z h m k = Inr (z, False)"
  by (simp add: GetBack_hashable)

section \<open>Insertion\<close>

lemma SetFront_unhashable_key: "\<not> hashable k \<Longrightarrow> SetFront h m k v = Inl UnhashableKey"
  by (simp add: SetFront_def m_has_unhashable)

lemma SetFront_front_hit:
  assumes "t_lookup (front_of h m) k \<noteq> None"
  shows "SetFront h m k v = Inr (Some ErrKeyValExists, h)"
proof -
  from assms have "hashable k" by (cases k) simp_all
  with assms show ?thesis by (simp add: SetFront_def m_has_hashable front_of_def)
qed

lemma SetFront_unhashable_val:
  assumes "hashable k" "t_lookup (front_of h m) k = None" "\<not> hashable v"
  shows "SetFront h m k v = Inl UnhashableKey"
  using assms by (simp add: SetFront_def m_has_hashable m_has_unhashable front_of_def)

lemma SetFront_back_hit:
  assumes "hashable k" "t_lookup (front_of h m) k = None" "t_lookup (back_of h m) v \<noteq> None"
  shows "SetFront h m k v = Inr (Some ErrKeyValExists, h)"
proof -
  from assms(3) have "hashable v" by (cases v) simp_all
  with assms show ?thesis
    by (simp add: SetFront_def m_has_hashable front_of_def back_of_def)
qed

lemma SetFront_nil:
  assumes "hashable k" "hashable v" "t_lookup (front_of h m) k = None"
    "t_lookup (back_of h m) v = None" "\<not> allocated h m"
  shows "SetFront h m k v = Inl NilMapWrite"
  using assms
  by (auto simp: SetFront_def m_has_hashable front_of_def back_of_def m_assign_def allocated_def)

lemma SetFront_ok:
  assumes "allocated h m" "hashable k" "hashable v"
    "t_lookup (front_of h m) k = None" "t_lookup (back_of h m) v = None"
  shows "SetFront h m k v =
     Inr (None, h\<lparr>tu_objs := (tu_objs h)[front m := t_put (front_of h m) k v],
                  ut_objs := (ut_objs h)[back' m := t_put (back_of h m) v k]\<rparr>)"
  using assms
  by (simp add: SetFront_def m_has_hashable front_of_def back_of_def m_assign_ok allocated_def)

lemma SetFront_success:
  assumes "SetFront h m k v = Inr (None, h')"
  shows "allocated h m \<and> hashable k \<and> hashable v \<and>
         t_lookup (front_of h m) k = None \<and> t_lookup (back_of h m) v = None \<and>
         h' = h\<lparr>tu_objs := (tu_objs h)[front m := t_put (front_of h m) k v],
                ut_objs := (ut_objs h)[back' m := t_put (back_of h m) v k]\<rparr>"
proof -
  have hk: "hashable k"
    using assms SetFront_unhashable_key [of k h m v] by (cases "hashable k") simp_all
  have fk: "t_lookup (front_of h m) k = None"
    using assms SetFront_front_hit [of h m k v] by (cases "t_lookup (front_of h m) k") simp_all
  have hv: "hashable v"
    using assms SetFront_unhashable_val [OF hk fk, of v] by (cases "hashable v") simp_all
  have bv: "t_lookup (back_of h m) v = None"
    using assms SetFront_back_hit [OF hk fk, of v] by (cases "t_lookup (back_of h m) v") simp_all
  have al: "allocated h m"
    using assms SetFront_nil [OF hk hv fk bv] by (cases "allocated h m") simp_all
  from assms show ?thesis
    using hk hv fk bv al by (simp add: SetFront_ok)
qed

lemma SetFront_error:
  assumes "SetFront h m k v = Inr (Some e, h')"
  shows "h' = h \<and> (t_lookup (front_of h m) k \<noteq> None \<or> t_lookup (back_of h m) v \<noteq> None)"
proof (cases "t_lookup (front_of h m) k \<noteq> None \<or> t_lookup (back_of h m) v \<noteq> None")
  case True
  have "SetFront h m k v = Inr (Some ErrKeyValExists, h)"
  proof (cases "t_lookup (front_of h m) k \<noteq> None")
    case True
    then show ?thesis by (rule SetFront_front_hit)
  next
    case False
    with True have b: "t_lookup (back_of h m) v \<noteq> None" by simp
    have hk: "hashable k"
      using assms SetFront_unhashable_key [of k h m v] by (cases "hashable k") simp_all
    from False have "t_lookup (front_of h m) k = None" by simp
    from SetFront_back_hit [OF hk this b] show ?thesis .
  qed
  with assms True show ?thesis by simp
next
  case False
  then have fk: "t_lookup (front_of h m) k = None" and bv: "t_lookup (back_of h m) v = None"
    by simp_all
  have hk: "hashable k"
    using assms SetFront_unhashable_key [of k h m v] by (cases "hashable k") simp_all
  have hv: "hashable v"
    using assms SetFront_unhashable_val [OF hk fk, of v] by (cases "hashable v") simp_all
  have al: "allocated h m"
    using assms SetFront_nil [OF hk hv fk bv] by (cases "allocated h m") simp_all
  from assms SetFront_ok [OF al hk hv fk bv] show ?thesis by simp
qed


lemma t_lookup_absent: "k \<notin> t_keys tbl \<Longrightarrow> t_lookup tbl k = None"
  by (cases k) (auto simp: t_keys_def)


lemmas eval_defs = SetFront_def SetBack_def DeleteFront_def DeleteBack_def GetFront_def GetBack_def
  m_has_def m_index_def m_assign_def m_delete_def m_at_def m_make_def front_of_def back_of_def
  empty_table_def allocated_def





text \<open>
  C5. After \<open>SetFront(k, v)\<close> has returned \<open>nil\<close>, \<open>GetFront(k)\<close> is \<open>(v, true)\<close> if \<open>k\<close> is
  equal to itself, and \<open>GetBack(v)\<close> is \<open>(k, true)\<close> if \<open>v\<close> is equal to itself.
\<close>

theorem SetFront_then_get:
  assumes "SetFront h m k v = Inr (None, h')"
  shows "(self_equal k \<longrightarrow> GetFront zU h' m k = Inr (v, True)) \<and>
         (self_equal v \<longrightarrow> GetBack zT h' m v = Inr (k, True))"
proof -
  note s = SetFront_success [OF assms]
  from s have len: "front m < length (tu_objs h) \<or> t_put (front_of h m) k v = front_of h m"
    "back' m < length (ut_objs h) \<or> t_put (back_of h m) v k = back_of h m"
    by (simp_all add: allocated_def)
  from s tables_update(1,2) [OF len]
  have f: "front_of h' m = t_put (front_of h m) k v" and b: "back_of h' m = t_put (back_of h m) v k"
    by simp_all
  from s have hk: "hashable k" and hv: "hashable v" by simp_all
  show ?thesis
    using hk hv by (simp add: GetFront_found GetBack_found f b t_lookup_put)
qed

text \<open>
  For a key that is not equal to itself: \<open>SetFront(NaN, "a")\<close> on the empty map returns
  \<open>nil\<close>, and \<open>GetFront(NaN)\<close> on the resulting store is \<open>("", false)\<close>.
\<close>

theorem SetFront_then_get_counterexample:
  "SetFront \<lparr>tu_objs = [empty_table], ut_objs = [empty_table]\<rparr> \<lparr>front = 0, back' = 0\<rparr>
      (NaN (0::int)) (Val ''a'')
     = Inr (None, \<lparr>tu_objs = [\<lparr>reg = Map.empty, irr = {#(0, Val ''a'')#}\<rparr>],
                   ut_objs = [\<lparr>reg = [''a'' \<mapsto> NaN 0], irr = {#}\<rparr>]\<rparr>) \<and>
   GetFront (Val '''') \<lparr>tu_objs = [\<lparr>reg = Map.empty, irr = {#(0, Val ''a'')#}\<rparr>],
                         ut_objs = [\<lparr>reg = [''a'' \<mapsto> NaN 0], irr = {#}\<rparr>]\<rparr>
      \<lparr>front = 0, back' = 0\<rparr> (NaN (0::int)) = Inr (Val '''', False)"
  by (simp add: eval_defs)

theorem SetFront_then_get_witness:
  "SetFront \<lparr>tu_objs = [empty_table], ut_objs = [empty_table]\<rparr> \<lparr>front = 0, back' = 0\<rparr>
      (Val ''k'') (Val ''v'')
     = Inr (None, \<lparr>tu_objs = [\<lparr>reg = [''k'' \<mapsto> Val ''v''], irr = {#}\<rparr>],
                   ut_objs = [\<lparr>reg = [''v'' \<mapsto> Val ''k''], irr = {#}\<rparr>]\<rparr>) \<and>
   self_equal (Val ''k'') \<and> self_equal (Val ''v'') \<and>
   GetFront (Val '''') \<lparr>tu_objs = [\<lparr>reg = [''k'' \<mapsto> Val ''v''], irr = {#}\<rparr>],
                         ut_objs = [\<lparr>reg = [''v'' \<mapsto> Val ''k''], irr = {#}\<rparr>]\<rparr>
      \<lparr>front = 0, back' = 0\<rparr> (Val ''k'') = Inr (Val ''v'', True) \<and>
   GetBack (Val '''') \<lparr>tu_objs = [\<lparr>reg = [''k'' \<mapsto> Val ''v''], irr = {#}\<rparr>],
                        ut_objs = [\<lparr>reg = [''v'' \<mapsto> Val ''k''], irr = {#}\<rparr>]\<rparr>
      \<lparr>front = 0, back' = 0\<rparr> (Val ''v'') = Inr (Val ''k'', True)"
proof -
  have s: "SetFront \<lparr>tu_objs = [empty_table], ut_objs = [empty_table]\<rparr> \<lparr>front = 0, back' = 0\<rparr>
      (Val ''k'') (Val ''v'')
     = Inr (None, \<lparr>tu_objs = [\<lparr>reg = [''k'' \<mapsto> Val ''v''], irr = {#}\<rparr>],
                   ut_objs = [\<lparr>reg = [''v'' \<mapsto> Val ''k''], irr = {#}\<rparr>]\<rparr>)"
    by (simp add: eval_defs)
  from s SetFront_then_get [OF s, of "Val ''''" "Val ''''"] show ?thesis by simp
qed

section \<open>Lookup of an absent key\<close>

lemma GetFront_eq:
  "GetFront z h m k =
     (if hashable k
      then Inr (case t_lookup (front_of h m) k of Some v \<Rightarrow> (v, True) | None \<Rightarrow> (z, False))
      else Inl UnhashableKey)"
  by (simp add: GetFront_hashable GetFront_unhashable)

lemma GetBack_eq:
  "GetBack z h m k =
     (if hashable k
      then Inr (case t_lookup (back_of h m) k of Some v \<Rightarrow> (v, True) | None \<Rightarrow> (z, False))
      else Inl UnhashableKey)"
  by (simp add: GetBack_hashable GetBack_unhashable)

lemma GetFront_not_found:
  "GetFront z h m k = Inr (w, False) \<longleftrightarrow> hashable k \<and> t_lookup (front_of h m) k = None \<and> w = z"
  by (auto simp: GetFront_eq split: option.splits)

text \<open>
  C9. For a key that can be hashed and that the index of the front table does not find,
  \<open>GetFront\<close> returns the zero value of \<open>U\<close> with \<open>false\<close>, and the call returns the
  store it was given; the same for \<open>GetBack\<close>, the back table and the zero value of \<open>T\<close>.
\<close>

theorem lookup_absent_zero:
  "(hashable k \<and> t_lookup (front_of h m) k = None \<longrightarrow>
      GetFront (zeroU T) h m k = Inr (zeroU T, False) \<and>
      exec T h m (CallGetFront k :: ('t, 'u, 's) call) = Inr (RetU (zeroU T) False, h)) \<and>
   (hashable b \<and> t_lookup (back_of h m) b = None \<longrightarrow>
      GetBack (zeroT T) h m b = Inr (zeroT T, False) \<and>
      exec T h m (CallGetBack b :: ('t, 'u, 's) call) = Inr (RetT (zeroT T) False, h))"
  by (auto simp: GetFront_missing GetBack_missing)

text \<open>
  For a key that cannot be hashed: it is no key of the front table of the empty map, and
  \<open>GetFront\<close> of it panics.
\<close>

theorem lookup_absent_zero_counterexample:
  "Unhashable (0::int) \<notin> t_keys (front_of (\<lparr>tu_objs = [empty_table], ut_objs = [empty_table]\<rparr>
                                             :: (int, string) heap) \<lparr>front = 0, back' = 0\<rparr>) \<and>
   GetFront (Val '''') (\<lparr>tu_objs = [empty_table], ut_objs = [empty_table]\<rparr> :: (int, string) heap)
      \<lparr>front = 0, back' = 0\<rparr> (Unhashable 0) = Inl UnhashableKey"
  by (simp add: eval_defs t_keys_def)

theorem lookup_absent_zero_witness:
  "hashable (Val ''x'') \<and>
   t_lookup (front_of \<lparr>tu_objs = [\<lparr>reg = [''k'' \<mapsto> Val (7::int)], irr = {#}\<rparr>],
                        ut_objs = [\<lparr>reg = [7 \<mapsto> Val ''k''], irr = {#}\<rparr>]\<rparr>
               \<lparr>front = 0, back' = 0\<rparr>) (Val ''x'') = None \<and>
   GetFront (Val (0::int)) \<lparr>tu_objs = [\<lparr>reg = [''k'' \<mapsto> Val 7], irr = {#}\<rparr>],
                             ut_objs = [\<lparr>reg = [7 \<mapsto> Val ''k''], irr = {#}\<rparr>]\<rparr>
       \<lparr>front = 0, back' = 0\<rparr> (Val ''x'') = Inr (Val 0, False) \<and>
   hashable (NaN (1::int)) \<and>
   t_lookup (back_of \<lparr>tu_objs = [\<lparr>reg = [''k'' \<mapsto> Val (7::int)], irr = {#}\<rparr>],
                       ut_objs = [\<lparr>reg = [7 \<mapsto> Val ''k''], irr = {#}\<rparr>]\<rparr>
               \<lparr>front = 0, back' = 0\<rparr>) (NaN 1) = None \<and>
   GetBack (Val '''') \<lparr>tu_objs = [\<lparr>reg = [''k'' \<mapsto> Val (7::int)], irr = {#}\<rparr>],
                        ut_objs = [\<lparr>reg = [7 \<mapsto> Val ''k''], irr = {#}\<rparr>]\<rparr>
       \<lparr>front = 0, back' = 0\<rparr> (NaN 1) = Inr (Val '''', False)"
  using lookup_absent_zero [where 's = unit, of "Val ''x''"
      "\<lparr>tu_objs = [\<lparr>reg = [''k'' \<mapsto> Val (7::int)], irr = {#}\<rparr>],
        ut_objs = [\<lparr>reg = [7 \<mapsto> Val ''k''], irr = {#}\<rparr>]\<rparr>"
      "\<lparr>front = 0, back' = 0\<rparr>"
      "\<lparr>zeroT = Val '''', zeroU = Val 0, fmtT = (\<lambda>_. []), fmtU = (\<lambda>_. [])\<rparr>" "NaN 1"]
  by (simp add: front_of_def back_of_def m_at_def)

section \<open>Deletion\<close>

lemma DeleteFront_unhashable: "\<not> hashable k \<Longrightarrow> DeleteFront h m k = Inl UnhashableKey"
  by (simp add: DeleteFront_def m_index_unhashable)

lemma DeleteFront_absent:
  "hashable k \<Longrightarrow> t_lookup (front_of h m) k = None \<Longrightarrow> DeleteFront h m k = Inr h"
  by (simp add: DeleteFront_def m_index_hashable front_of_def)

lemma DeleteFront_unhashable_val:
  assumes "t_lookup (front_of h m) k = Some v" "\<not> hashable v"
  shows "DeleteFront h m k = Inl UnhashableKey"
proof -
  from assms(1) have "hashable k" by (simp add: t_lookup_hashable)
  with assms show ?thesis
    by (simp add: DeleteFront_def m_index_hashable m_delete_ok m_delete_unhashable front_of_def)
qed

lemma DeleteFront_present:
  assumes "t_lookup (front_of h m) k = Some v" "hashable v"
  shows "DeleteFront h m k =
     Inr (h\<lparr>tu_objs := (tu_objs h)[front m := t_del (front_of h m) k],
            ut_objs := (ut_objs h)[back' m := t_del (back_of h m) v]\<rparr>)"
proof -
  from assms(1) have "hashable k" by (simp add: t_lookup_hashable)
  with assms show ?thesis
    by (simp add: DeleteFront_def m_index_hashable m_delete_ok front_of_def back_of_def)
qed

lemma found_allocated: "t_lookup (m_at objs a) k = Some v \<Longrightarrow> a < length objs"
  by (cases "a < length objs") (simp_all add: m_at_def t_lookup_empty)

lemma del_update_ok: "a < length objs \<or> t_del (m_at objs a) k = m_at objs a"
  by (cases "a < length objs") (simp_all add: m_at_def t_del_empty)

lemma DeleteFront_tables:
  assumes "DeleteFront h m k = Inr h'" "t_lookup (front_of h m) k = Some v"
  shows "hashable v \<and> front_of h' m = t_del (front_of h m) k \<and>
         back_of h' m = t_del (back_of h m) v \<and> frame h m h' \<and> allocated h' m = allocated h m"
proof -
  have hv: "hashable v"
    using assms DeleteFront_unhashable_val [OF assms(2)] by (cases "hashable v") simp_all
  have u: "front m < length (tu_objs h) \<or> t_del (front_of h m) k = front_of h m"
    "back' m < length (ut_objs h) \<or> t_del (back_of h m) v = back_of h m"
    unfolding front_of_def back_of_def by (rule del_update_ok)+
  from assms(1) have "h' = h\<lparr>tu_objs := (tu_objs h)[front m := t_del (front_of h m) k],
            ut_objs := (ut_objs h)[back' m := t_del (back_of h m) v]\<rparr>"
    by (simp add: DeleteFront_present [OF assms(2) hv])
  with hv tables_update [OF u] show ?thesis by simp
qed

text \<open>
  C6. When \<open>GetFront(k)\<close> finds \<open>v\<close> and \<open>v\<close> can be hashed, \<open>DeleteFront(k)\<close> returns;
  after it \<open>GetFront(k)\<close> and \<open>GetBack(v)\<close> are not-found, the front table is the one
  given with \<open>delete(front, k)\<close> done and the back table the one given with
  \<open>delete(back, v)\<close> done (which removes nothing when \<open>v\<close> is not equal to itself). When
  \<open>GetFront(k)\<close> is not-found, \<open>DeleteFront(k)\<close> returns the store it was given.
\<close>

theorem DeleteFront_both_sides:
  "(\<forall>v. GetFront zU h m k = Inr (v, True) \<and> hashable v \<longrightarrow>
      (\<exists>h'. DeleteFront h m k = Inr h' \<and>
         GetFront zU h' m k = Inr (zU, False) \<and>
         GetBack zT h' m v = Inr (zT, False) \<and>
         front_of h' m = t_del (front_of h m) k \<and>
         back_of h' m = t_del (back_of h m) v)) \<and>
   (\<forall>w. GetFront zU h m k = Inr (w, False) \<longrightarrow> DeleteFront h m k = Inr h)"
proof (intro conjI allI impI)
  fix v assume a: "GetFront zU h m k = Inr (v, True) \<and> hashable v"
  then have f: "t_lookup (front_of h m) k = Some v" and hv: "hashable v"
    by (simp_all add: GetFront_found)
  from f have hk: "hashable k" by (simp add: t_lookup_hashable)
  note p = DeleteFront_present [OF f hv]
  note t = DeleteFront_tables [OF p f]
  have 1: "GetFront zU (h\<lparr>tu_objs := (tu_objs h)[front m := t_del (front_of h m) k],
            ut_objs := (ut_objs h)[back' m := t_del (back_of h m) v]\<rparr>) m k = Inr (zU, False)"
    using t hk f by (simp add: GetFront_eq t_lookup_del t_lookup_hashable)
  have 2: "GetBack zT (h\<lparr>tu_objs := (tu_objs h)[front m := t_del (front_of h m) k],
            ut_objs := (ut_objs h)[back' m := t_del (back_of h m) v]\<rparr>) m v = Inr (zT, False)"
    using t hv by (cases v) (simp_all add: GetBack_eq)
  from p t 1 2 show "\<exists>h'. DeleteFront h m k = Inr h' \<and>
         GetFront zU h' m k = Inr (zU, False) \<and>
         GetBack zT h' m v = Inr (zT, False) \<and>
         front_of h' m = t_del (front_of h m) k \<and>
         back_of h' m = t_del (back_of h m) v"
    by simp
next
  fix w assume "GetFront zU h m k = Inr (w, False)"
  then have "hashable k" "t_lookup (front_of h m) k = None"
    by (simp_all add: GetFront_not_found)
  then show "DeleteFront h m k = Inr h" by (rule DeleteFront_absent)
qed

text \<open>
  C10. When \<open>GetFront(k)\<close> finds \<open>v\<close>, then after a \<open>DeleteFront(k)\<close> that returns,
  \<open>GetFront\<close> answers as before for every key other than \<open>k\<close> and \<open>GetBack\<close> answers as
  before for every key other than \<open>v\<close>; and \<open>DeleteFront(k)\<close> does return when \<open>v\<close> can
  be hashed.
\<close>

theorem DeleteFront_frame:
  assumes "GetFront z h m k = Inr (v, True)"
  shows "(\<forall>h'. DeleteFront h m k = Inr h' \<longrightarrow>
           (\<forall>k'. k' \<noteq> k \<longrightarrow> GetFront z h' m k' = GetFront z h m k') \<and>
           (\<forall>b. b \<noteq> v \<longrightarrow> GetBack z' h' m b = GetBack z' h m b)) \<and>
         (hashable v \<longrightarrow> (\<exists>h'. DeleteFront h m k = Inr h'))"
proof -
  from assms have f: "t_lookup (front_of h m) k = Some v" by (simp add: GetFront_found)
  have 1: "\<forall>h'. DeleteFront h m k = Inr h' \<longrightarrow>
           (\<forall>k'. k' \<noteq> k \<longrightarrow> GetFront z h' m k' = GetFront z h m k') \<and>
           (\<forall>b. b \<noteq> v \<longrightarrow> GetBack z' h' m b = GetBack z' h m b)"
  proof (rule allI, rule impI)
    fix h' assume d: "DeleteFront h m k = Inr h'"
    note t = DeleteFront_tables [OF d f]
    show "(\<forall>k'. k' \<noteq> k \<longrightarrow> GetFront z h' m k' = GetFront z h m k') \<and>
          (\<forall>b. b \<noteq> v \<longrightarrow> GetBack z' h' m b = GetBack z' h m b)"
      using t by (simp add: GetFront_eq GetBack_eq t_lookup_del)
  qed
  have 2: "hashable v \<longrightarrow> (\<exists>h'. DeleteFront h m k = Inr h')"
    using DeleteFront_present [OF f] by blast
  from 1 2 show ?thesis by (rule conjI)
qed

text \<open>
  For a value that is not equal to itself: on the store that \<open>SetFront("k", NaN)\<close> leaves,
  \<open>DeleteFront("k")\<close> empties the front table and leaves the entry of the back table, so
  \<open>NaN\<close> is still a key of it. And for a key that cannot be hashed, which is in no table,
  \<open>DeleteFront\<close> panics.
\<close>

theorem DeleteFront_both_sides_counterexample:
  "GetFront (Val (0::int)) \<lparr>tu_objs = [\<lparr>reg = [''k'' \<mapsto> NaN 0], irr = {#}\<rparr>],
                             ut_objs = [\<lparr>reg = Map.empty, irr = {#(0, Val ''k'')#}\<rparr>]\<rparr>
      \<lparr>front = 0, back' = 0\<rparr> (Val ''k'') = Inr (NaN 0, True) \<and>
   DeleteFront \<lparr>tu_objs = [\<lparr>reg = [''k'' \<mapsto> NaN (0::int)], irr = {#}\<rparr>],
                ut_objs = [\<lparr>reg = Map.empty, irr = {#(0, Val ''k'')#}\<rparr>]\<rparr>
      \<lparr>front = 0, back' = 0\<rparr> (Val ''k'')
     = Inr \<lparr>tu_objs = [\<lparr>reg = Map.empty, irr = {#}\<rparr>],
            ut_objs = [\<lparr>reg = Map.empty, irr = {#(0, Val ''k'')#}\<rparr>]\<rparr> \<and>
   NaN (0::int) \<in> t_keys (back_of \<lparr>tu_objs = [\<lparr>reg = Map.empty, irr = {#}\<rparr>],
                                    ut_objs = [\<lparr>reg = Map.empty, irr = {#(0, Val ''k'')#}\<rparr>]\<rparr>
                                  \<lparr>front = 0, back' = 0\<rparr>) \<and>
   Unhashable ''x'' \<notin> t_keys (front_of (\<lparr>tu_objs = [empty_table], ut_objs = [empty_table]\<rparr>
                                          :: (string, int) heap) \<lparr>front = 0, back' = 0\<rparr>) \<and>
   DeleteFront (\<lparr>tu_objs = [empty_table], ut_objs = [empty_table]\<rparr> :: (string, int) heap)
      \<lparr>front = 0, back' = 0\<rparr> (Unhashable ''x'') = Inl UnhashableKey"
  by (simp add: eval_defs t_keys_def)

theorem DeleteFront_both_sides_witness:
  "GetFront (Val '''') \<lparr>tu_objs = [\<lparr>reg = [''a'' \<mapsto> Val ''b''], irr = {#}\<rparr>],
                         ut_objs = [\<lparr>reg = [''b'' \<mapsto> Val ''a''], irr = {#}\<rparr>]\<rparr>
      \<lparr>front = 0, back' = 0\<rparr> (Val ''a'') = Inr (Val ''b'', True) \<and>
   hashable (Val ''b'') \<and>
   DeleteFront \<lparr>tu_objs = [\<lparr>reg = [''a'' \<mapsto> Val ''b''], irr = {#}\<rparr>],
                ut_objs = [\<lparr>reg = [''b'' \<mapsto> Val ''a''], irr = {#}\<rparr>]\<rparr>
      \<lparr>front = 0, back' = 0\<rparr> (Val ''a'')
     = Inr \<lparr>tu_objs = [\<lparr>reg = Map.empty, irr = {#}\<rparr>],
            ut_objs = [\<lparr>reg = Map.empty, irr = {#}\<rparr>]\<rparr> \<and>
   GetFront (Val '''') (\<lparr>tu_objs = [\<lparr>reg = Map.empty, irr = {#}\<rparr>],
                          ut_objs = [\<lparr>reg = Map.empty, irr = {#}\<rparr>]\<rparr> :: (string, string) heap)
      \<lparr>front = 0, back' = 0\<rparr> (Val ''a'') = Inr (Val '''', False) \<and>
   GetBack (Val '''') (\<lparr>tu_objs = [\<lparr>reg = Map.empty, irr = {#}\<rparr>],
                         ut_objs = [\<lparr>reg = Map.empty, irr = {#}\<rparr>]\<rparr> :: (string, string) heap)
      \<lparr>front = 0, back' = 0\<rparr> (Val ''b'') = Inr (Val '''', False) \<and>
   GetFront (Val '''') (\<lparr>tu_objs = [\<lparr>reg = Map.empty, irr = {#}\<rparr>],
                          ut_objs = [\<lparr>reg = Map.empty, irr = {#}\<rparr>]\<rparr> :: (string, string) heap)
      \<lparr>front = 0, back' = 0\<rparr> (Val ''missing'') = Inr (Val '''', False) \<and>
   DeleteFront (\<lparr>tu_objs = [\<lparr>reg = Map.empty, irr = {#}\<rparr>],
                 ut_objs = [\<lparr>reg = Map.empty, irr = {#}\<rparr>]\<rparr> :: (string, string) heap)
      \<lparr>front = 0, back' = 0\<rparr> (Val ''missing'')
     = Inr \<lparr>tu_objs = [\<lparr>reg = Map.empty, irr = {#}\<rparr>], ut_objs = [\<lparr>reg = Map.empty, irr = {#}\<rparr>]\<rparr>"
proof -
  let ?h = "\<lparr>tu_objs = [\<lparr>reg = [''a'' \<mapsto> Val ''b''], irr = {#}\<rparr>],
             ut_objs = [\<lparr>reg = [''b'' \<mapsto> Val ''a''], irr = {#}\<rparr>]\<rparr>"
  let ?e = "\<lparr>tu_objs = [\<lparr>reg = Map.empty, irr = {#}\<rparr>],
             ut_objs = [\<lparr>reg = Map.empty, irr = {#}\<rparr>]\<rparr> :: (string, string) heap"
  let ?m = "\<lparr>front = 0, back' = 0\<rparr>"
  have g: "GetFront (Val '''') ?h ?m (Val ''a'') = Inr (Val ''b'', True)"
    by (simp add: eval_defs)
  have d: "DeleteFront ?h ?m (Val ''a'') = Inr ?e"
    by (simp add: eval_defs)
  have n: "GetFront (Val '''') ?e ?m (Val ''missing'') = Inr (Val '''', False)"
    by (simp add: eval_defs)
  from DeleteFront_both_sides [of "Val ''''" ?h ?m "Val ''a''" "Val ''''"] g d
  have 1: "GetFront (Val '''') ?e ?m (Val ''a'') = Inr (Val '''', False) \<and>
           GetBack (Val '''') ?e ?m (Val ''b'') = Inr (Val '''', False)"
    by auto
  from DeleteFront_both_sides [of "Val ''''" ?e ?m "Val ''missing''" "Val ''''"] n
  have 2: "DeleteFront ?e ?m (Val ''missing'') = Inr ?e" by blast
  from g d n 1 2 show ?thesis by simp
qed

theorem DeleteFront_frame_witness:
  "GetFront (Val '''')
      \<lparr>tu_objs = [\<lparr>reg = [''a'' \<mapsto> Val ''b'', ''c'' \<mapsto> Val ''d''], irr = {#}\<rparr>],
       ut_objs = [\<lparr>reg = [''b'' \<mapsto> Val ''a'', ''d'' \<mapsto> Val ''c''], irr = {#}\<rparr>]\<rparr>
      \<lparr>front = 0, back' = 0\<rparr> (Val ''a'') = Inr (Val ''b'', True) \<and>
   hashable (Val ''b'') \<and>
   DeleteFront
      \<lparr>tu_objs = [\<lparr>reg = [''a'' \<mapsto> Val ''b'', ''c'' \<mapsto> Val ''d''], irr = {#}\<rparr>],
       ut_objs = [\<lparr>reg = [''b'' \<mapsto> Val ''a'', ''d'' \<mapsto> Val ''c''], irr = {#}\<rparr>]\<rparr>
      \<lparr>front = 0, back' = 0\<rparr> (Val ''a'')
     = Inr \<lparr>tu_objs = [\<lparr>reg = [''c'' \<mapsto> Val ''d''], irr = {#}\<rparr>],
            ut_objs = [\<lparr>reg = [''d'' \<mapsto> Val ''c''], irr = {#}\<rparr>]\<rparr> \<and>
   GetFront (Val '''')
      \<lparr>tu_objs = [\<lparr>reg = [''c'' \<mapsto> Val ''d''], irr = {#}\<rparr>],
       ut_objs = [\<lparr>reg = [''d'' \<mapsto> Val ''c''], irr = {#}\<rparr>]\<rparr>
      \<lparr>front = 0, back' = 0\<rparr> (Val ''c'') = Inr (Val ''d'', True) \<and>
   GetBack (Val '''')
      \<lparr>tu_objs = [\<lparr>reg = [''c'' \<mapsto> Val ''d''], irr = {#}\<rparr>],
       ut_objs = [\<lparr>reg = [''d'' \<mapsto> Val ''c''], irr = {#}\<rparr>]\<rparr>
      \<lparr>front = 0, back' = 0\<rparr> (Val ''d'') = Inr (Val ''c'', True)"
proof -
  let ?h = "\<lparr>tu_objs = [\<lparr>reg = [''a'' \<mapsto> Val ''b'', ''c'' \<mapsto> Val ''d''], irr = {#}\<rparr>],
             ut_objs = [\<lparr>reg = [''b'' \<mapsto> Val ''a'', ''d'' \<mapsto> Val ''c''], irr = {#}\<rparr>]\<rparr>"
  let ?h' = "\<lparr>tu_objs = [\<lparr>reg = [''c'' \<mapsto> Val ''d''], irr = {#}\<rparr>],
              ut_objs = [\<lparr>reg = [''d'' \<mapsto> Val ''c''], irr = {#}\<rparr>]\<rparr>"
  let ?m = "\<lparr>front = 0, back' = 0\<rparr>"
  have g: "GetFront (Val '''') ?h ?m (Val ''a'') = Inr (Val ''b'', True)"
    by (simp add: eval_defs)
  have c: "GetFront (Val '''') ?h ?m (Val ''c'') = Inr (Val ''d'', True)"
    by (simp add: eval_defs)
  have b: "GetBack (Val '''') ?h ?m (Val ''d'') = Inr (Val ''c'', True)"
    by (simp add: eval_defs)
  have d: "DeleteFront ?h ?m (Val ''a'') = Inr ?h'"
    by (simp add: eval_defs fun_upd_twist)
  from DeleteFront_frame [OF g, of "Val ''''"] d c b
  have "GetFront (Val '''') ?h' ?m (Val ''c'') = Inr (Val ''d'', True) \<and>
        GetBack (Val '''') ?h' ?m (Val ''d'') = Inr (Val ''c'', True)"
    by simp
  with g d show ?thesis by simp
qed


section \<open>Construction\<close>

lemma New_result:
  "New h opts = (\<lparr>front = length (tu_objs h), back' = length (ut_objs h)\<rparr>,
                 h\<lparr>tu_objs := tu_objs h @ [empty_table], ut_objs := ut_objs h @ [empty_table]\<rparr>)"
  by (simp add: New_def m_make_def)


text \<open>
  C3. \<open>New\<close> called with \<open>WithInitialMap\<close> of a table holding the pair
  \<open>("a", "b")\<close> returns a map whose front table is empty: \<open>GetFront("a")\<close> on it is
  \<open>("", false)\<close>, not \<open>("b", true)\<close>, and \<open>Len()\<close> is 0. The option is never applied.
\<close>

theorem New_discards_initial_map:
  "t_lookup (m_at (tu_objs \<lparr>tu_objs = [\<lparr>reg = [''a'' \<mapsto> Val ''b''], irr = {#}\<rparr>], ut_objs = []\<rparr>) 0)
      (Val ''a'') = Some (Val ''b'') \<and>
   New \<lparr>tu_objs = [\<lparr>reg = [''a'' \<mapsto> Val ''b''], irr = {#}\<rparr>], ut_objs = []\<rparr> [WithInitialMap 0]
     = (\<lparr>front = 1, back' = 0\<rparr>,
        \<lparr>tu_objs = [\<lparr>reg = [''a'' \<mapsto> Val ''b''], irr = {#}\<rparr>, empty_table],
         ut_objs = [empty_table]\<rparr>) \<and>
   GetFront (Val '''') \<lparr>tu_objs = [\<lparr>reg = [''a'' \<mapsto> Val ''b''], irr = {#}\<rparr>, empty_table],
                         ut_objs = [empty_table]\<rparr>
      \<lparr>front = 1, back' = 0\<rparr> (Val ''a'') = Inr (Val '''', False) \<and>
   Len \<lparr>tu_objs = [\<lparr>reg = [''a'' \<mapsto> Val ''b''], irr = {#}\<rparr>, empty_table],
        ut_objs = [empty_table :: (string, string gval) table]\<rparr>
      \<lparr>front = 1, back' = 0\<rparr> = 0"
  by (simp add: New_result eval_defs Len_def t_len_def)

section \<open>Ranging over a table\<close>

lemma val_part_mem: "(x, v) \<in> set (val_part kvs) \<longleftrightarrow> (Val x, v) \<in> set kvs"
  by (induction kvs rule: val_part.induct) auto

lemma nan_part_mem: "(x, v) \<in> set (nan_part kvs) \<longleftrightarrow> (NaN x, v) \<in> set kvs"
  by (induction kvs rule: nan_part.induct) auto

lemma range_order_holds:
  assumes "range_order tbl kvs" "kv \<in> set kvs"
  shows "t_holds tbl kv"
proof -
  obtain k v where kv: "kv = (k, v)" by (cases kv)
  from assms have h: "hashable k"
    by (auto simp: range_order_def list_all_iff kv)
  show ?thesis
  proof (cases k)
    case (Val x)
    with assms kv have "(x, v) \<in> set (val_part kvs)" by (simp add: val_part_mem)
    moreover from assms have "distinct (map fst (val_part kvs))" "map_of (val_part kvs) = reg tbl"
      by (simp_all add: range_order_def)
    ultimately have "reg tbl x = Some v" by (metis map_of_is_SomeI)
    with Val kv show ?thesis by simp
  next
    case (NaN x)
    with assms kv have "(x, v) \<in> set (nan_part kvs)" by (simp add: nan_part_mem)
    moreover from assms have "mset (nan_part kvs) = irr tbl" by (simp add: range_order_def)
    ultimately have "(x, v) \<in># irr tbl" by (metis set_mset_mset)
    with NaN kv show ?thesis by simp
  next
    case (Unhashable x)
    with h show ?thesis by simp
  qed
qed

lemma t_range_order: "range_order tbl kvs \<Longrightarrow> t_range tbl kvs = kvs"
  by (simp add: t_range_def filter_id_conv range_order_holds)

lemma t_range_hashable: "kv \<in> set (t_range tbl kvs) \<Longrightarrow> hashable (fst kv)"
  by (cases kv; cases "fst kv") (auto simp: t_range_def)

lemma range_order_empty: "range_order empty_table kvs \<longleftrightarrow> kvs = []"
proof
  assume r: "range_order empty_table kvs"
  show "kvs = []"
  proof (cases kvs)
    case Nil
    then show ?thesis .
  next
    case (Cons kv rest)
    then have "kv \<in> set kvs" by simp
    from range_order_holds [OF r this] show ?thesis
      by (cases kv; cases "fst kv") (auto simp: empty_table_def)
  qed
next
  assume "kvs = []"
  then show "range_order empty_table kvs" by (simp add: range_order_def empty_table_def)
qed

lemma mset_parts:
  "list_all (\<lambda>(k, v). hashable k) kvs \<Longrightarrow>
     mset kvs = image_mset (\<lambda>(x, v). (Val x, v)) (mset (val_part kvs)) +
                image_mset (\<lambda>(x, v). (NaN x, v)) (mset (nan_part kvs))"
  by (induction kvs rule: val_part.induct) simp_all

lemma mset_map_of:
  assumes "distinct (map fst vs)"
  shows "image_mset (\<lambda>(x, v). (Val x, v)) (mset vs)
           = image_mset (\<lambda>x. (Val x, the (map_of vs x))) (mset_set (dom (map_of vs)))"
proof -
  have "mset_set (dom (map_of vs)) = mset (map fst vs)"
    using mset_set_set [OF assms] by (simp add: dom_map_of_conv_image_fst)
  then have "image_mset (\<lambda>x. (Val x, the (map_of vs x))) (mset_set (dom (map_of vs)))
               = mset (map (\<lambda>p. (Val (fst p), the (map_of vs (fst p)))) vs)"
    by (simp add: multiset.map_comp comp_def)
  also have "\<dots> = mset (map (\<lambda>(x, v). (Val x, v)) vs)"
  proof -
    have "map (\<lambda>p. (Val (fst p), the (map_of vs (fst p)))) vs = map (\<lambda>(x, v). (Val x, v)) vs"
      using assms by (intro map_cong) (auto simp: map_of_is_SomeI)
    then show ?thesis by (rule arg_cong [where f = mset])
  qed
  finally show ?thesis by simp
qed

lemma range_order_entries:
  assumes "range_order tbl kvs"
  shows "mset kvs = t_entries tbl" and "finite (dom (reg tbl))"
proof -
  from assms have a: "list_all (\<lambda>(k, v). hashable k) kvs" "distinct (map fst (val_part kvs))"
    "map_of (val_part kvs) = reg tbl" "mset (nan_part kvs) = irr tbl"
    by (simp_all add: range_order_def)
  from a(3) show "finite (dom (reg tbl))" by (metis finite_dom_map_of)
  from mset_parts [OF a(1)] mset_map_of [OF a(2)] a(3,4)
  show "mset kvs = t_entries tbl" by (simp add: t_entries_def)
qed

section \<open>Rendering\<close>

lemma fold_sep: "fold (\<lambda>s b. b @ sep @ s) es acc = acc @ concat (map (\<lambda>s. sep @ s) es)"
  by (induction es arbitrary: acc) simp_all

lemma space_joined_Cons: "space_joined (t # ts) = t @ concat (map (\<lambda>s. '' '' @ s) ts)"
  by (induction ts arbitrary: t) simp_all

lemma Join_space: "Join ts '' '' = space_joined ts"
proof (cases ts)
  case Nil
  then show ?thesis by simp
next
  case (Cons t ts')
  have "Join (t # ts') '' '' = t @ concat (map (\<lambda>s. '' '' @ s) ts')"
    by (cases ts') (simp_all only: Join.simps fold_sep list.map concat.simps append_Nil2)
  with Cons show ?thesis by (simp only: space_joined_Cons)
qed

lemma String_pairs_fold:
  "fold (\<lambda>(f, b) pairs. pairs @ [g f b]) kvs acc = acc @ map (\<lambda>(f, b). g f b) kvs"
  by (induction kvs arbitrary: acc) auto

lemma String_order:
  assumes "range_order (front_of h m) kvs"
  shows "String fT fU h m kvs
           = ''map['' @ space_joined (map (\<lambda>(f, b). fT f @ '':'' @ fU b) kvs) @ '']''"
  unfolding String_def String_pairs_def t_range_order [OF assms] String_pairs_fold Join_space
  by (simp add: Sprintf_pair_def [abs_def])

lemma all_val_part:
  "list_all (\<lambda>(k, v). hashable k) kvs \<Longrightarrow> nan_part kvs = [] \<Longrightarrow>
     kvs = map (\<lambda>(x, v). (Val x, v)) (val_part kvs)"
  by (induction kvs rule: val_part.induct) simp_all

lemma range_order_regular:
  assumes "range_order tbl kvs" "irr tbl = {#}"
  shows "distinct kvs \<and> set kvs = (\<lambda>(x, v). (Val x, v)) ` Map.graph (reg tbl)"
proof -
  from assms have a: "list_all (\<lambda>(k, v). hashable k) kvs" "distinct (map fst (val_part kvs))"
    "map_of (val_part kvs) = reg tbl" "nan_part kvs = []"
    by (simp_all add: range_order_def)
  note k = all_val_part [OF a(1,4)]
  from a(2) have d: "distinct (val_part kvs)" by (rule distinct_map [THEN iffD1, THEN conjunct1])
  have "distinct (map (\<lambda>(x, v). (Val x, v)) (val_part kvs))"
    using d by (simp add: distinct_map inj_on_def split: prod.splits)
  with k have 1: "distinct kvs" by simp
  have "set (val_part kvs) = Map.graph (reg tbl)"
    using graph_map_of_if_distinct_dom [OF a(2)] a(3) by simp
  then have "set (map (\<lambda>(x, v). (Val x, v)) (val_part kvs))
               = (\<lambda>(x, v). (Val x, v)) ` Map.graph (reg tbl)"
    by simp
  with k have 2: "set kvs = (\<lambda>(x, v). (Val x, v)) ` Map.graph (reg tbl)" by simp
  from 1 2 show ?thesis ..
qed

text \<open>
  C8. Whatever order \<open>range\<close> takes over the front table, \<open>String()\<close> is \<open>map[\<close>, then
  the tokens \<open>key:value\<close> of the entries of the front table, each entry as often as the
  table holds it (once, when every key is equal to itself), in some order and with a
  single space between neighbours, then \<open>]\<close>; for an empty front table it is \<open>map[]\<close>.
\<close>

theorem String_format:
  assumes "range_order (front_of h m) kvs"
  shows "(\<exists>ps. mset ps = t_entries (front_of h m) \<and>
            (irr (front_of h m) = {#} \<longrightarrow>
               distinct ps \<and> set ps = (\<lambda>(x, v). (Val x, v)) ` Map.graph (reg (front_of h m))) \<and>
            String fT fU h m kvs
              = ''map['' @ space_joined (map (\<lambda>(f, b). fT f @ '':'' @ fU b) ps) @ '']'') \<and>
         (front_of h m = empty_table \<longrightarrow> String fT fU h m kvs = ''map[]'')"
proof (intro conjI impI)
  note e = range_order_entries [OF assms]
  have reg: "irr (front_of h m) = {#} \<longrightarrow>
               distinct kvs \<and> set kvs = (\<lambda>(x, v). (Val x, v)) ` Map.graph (reg (front_of h m))"
    using range_order_regular [OF assms] by blast
  from e(1) reg String_order [OF assms]
  show "\<exists>ps. mset ps = t_entries (front_of h m) \<and>
            (irr (front_of h m) = {#} \<longrightarrow>
               distinct ps \<and> set ps = (\<lambda>(x, v). (Val x, v)) ` Map.graph (reg (front_of h m))) \<and>
            String fT fU h m kvs
              = ''map['' @ space_joined (map (\<lambda>(f, b). fT f @ '':'' @ fU b) ps) @ '']''"
    by blast
next
  assume "front_of h m = empty_table"
  with assms have "kvs = []" by (simp add: range_order_empty)
  then show "String fT fU h m kvs = ''map[]''"
    by (simp add: String_def String_pairs_def t_range_def)
qed

theorem String_format_witness:
  "range_order (front_of \<lparr>tu_objs = [\<lparr>reg = [''a'' \<mapsto> Val ''b'', ''c'' \<mapsto> Val ''d''], irr = {#}\<rparr>],
                           ut_objs = [\<lparr>reg = [''b'' \<mapsto> Val ''a'', ''d'' \<mapsto> Val ''c''], irr = {#}\<rparr>]\<rparr>
                  \<lparr>front = 0, back' = 0\<rparr>)
      [(Val ''a'', Val ''b''), (Val ''c'', Val ''d'')] \<and>
   String (case_gval id id id) (case_gval id id id)
      \<lparr>tu_objs = [\<lparr>reg = [''a'' \<mapsto> Val ''b'', ''c'' \<mapsto> Val ''d''], irr = {#}\<rparr>],
       ut_objs = [\<lparr>reg = [''b'' \<mapsto> Val ''a'', ''d'' \<mapsto> Val ''c''], irr = {#}\<rparr>]\<rparr>
      \<lparr>front = 0, back' = 0\<rparr>
      [(Val ''a'', Val ''b''), (Val ''c'', Val ''d'')] = ''map[a:b c:d]'' \<and>
   range_order (front_of (\<lparr>tu_objs = [empty_table], ut_objs = [empty_table]\<rparr> :: (string, string) heap)
                  \<lparr>front = 0, back' = 0\<rparr>) [] \<and>
   front_of (\<lparr>tu_objs = [empty_table], ut_objs = [empty_table]\<rparr> :: (string, string) heap)
      \<lparr>front = 0, back' = 0\<rparr> = empty_table \<and>
   String (case_gval id id id) (case_gval id id id)
      (\<lparr>tu_objs = [empty_table], ut_objs = [empty_table]\<rparr> :: (string, string) heap)
      \<lparr>front = 0, back' = 0\<rparr> [] = ''map[]''"
proof -
  let ?h = "\<lparr>tu_objs = [\<lparr>reg = [''a'' \<mapsto> Val ''b'', ''c'' \<mapsto> Val ''d''], irr = {#}\<rparr>],
             ut_objs = [\<lparr>reg = [''b'' \<mapsto> Val ''a'', ''d'' \<mapsto> Val ''c''], irr = {#}\<rparr>]\<rparr>"
  let ?e = "\<lparr>tu_objs = [empty_table], ut_objs = [empty_table]\<rparr> :: (string, string) heap"
  let ?m = "\<lparr>front = 0, back' = 0\<rparr>"
  let ?kvs = "[(Val ''a'', Val ''b''), (Val ''c'', Val ''d'')]"
  let ?f = "case_gval id id id :: string gval \<Rightarrow> string"
  have r: "range_order (front_of ?h ?m) ?kvs"
    by (simp add: range_order_def front_of_def m_at_def fun_upd_twist)
  from String_format [OF r, of ?f ?f] obtain ps where
    "String ?f ?f ?h ?m ?kvs = ''map['' @ space_joined (map (\<lambda>(f, b). ?f f @ '':'' @ ?f b) ps) @ '']''"
    by blast
  have v: "String ?f ?f ?h ?m ?kvs = ''map[a:b c:d]''"
    by (simp add: String_order [OF r])
  have fe: "front_of ?e ?m = empty_table" by (simp add: front_of_def m_at_def)
  have re: "range_order (front_of ?e ?m) []" by (simp add: fe range_order_empty)
  from String_format [OF re, of ?f ?f] fe have se: "String ?f ?f ?e ?m [] = ''map[]''"
    by blast
  from r v re fe se show ?thesis by blast
qed

section \<open>Filling a table\<close>

lemma fold_put_reg:
  "reg (fold (\<lambda>(k, v) t. t_put t k v) kvs t0) = reg t0 ++ map_of (rev (val_part kvs))"
  by (induction kvs arbitrary: t0 rule: val_part.induct) simp_all

lemma fold_put_irr:
  "irr (fold (\<lambda>(k, v) t. t_put t k v) kvs t0) = irr t0 + mset (nan_part kvs)"
  by (induction kvs arbitrary: t0 rule: val_part.induct) simp_all

lemma map_of_rev_distinct: "distinct (map fst vs) \<Longrightarrow> map_of (rev vs) = map_of vs"
  by (subst map_of_inject_set) (simp_all add: rev_map [symmetric])

lemma fold_put_range:
  assumes "range_order tbl kvs"
  shows "fold (\<lambda>(k, v) t. t_put t k v) kvs empty_table = tbl"
proof -
  from assms have a: "distinct (map fst (val_part kvs))" "map_of (val_part kvs) = reg tbl"
    "mset (nan_part kvs) = irr tbl"
    by (simp_all add: range_order_def)
  have "reg (fold (\<lambda>(k, v) t. t_put t k v) kvs empty_table) = reg tbl"
    by (simp add: fold_put_reg empty_table_def map_of_rev_distinct [OF a(1)] a(2))
  moreover have "irr (fold (\<lambda>(k, v) t. t_put t k v) kvs empty_table) = irr tbl"
    by (simp add: fold_put_irr empty_table_def a(3))
  ultimately show ?thesis by simp
qed

lemma copy_loop_result:
  assumes "nm < length objs" "\<forall>kv\<in>set kvs. hashable (fst kv)"
  shows "copy_loop objs nm kvs = Inr (objs[nm := fold (\<lambda>(k, v) t. t_put t k v) kvs (m_at objs nm)])"
  using assms
proof (induction kvs arbitrary: objs)
  case Nil
  then show ?case by (simp add: m_at_def)
next
  case (Cons kv kvs)
  obtain k v where kv: "kv = (k, v)" by (cases kv)
  let ?objs = "objs[nm := t_put (m_at objs nm) k v]"
  from Cons.prems kv have hk: "hashable k" by simp
  have len: "nm < length ?objs" using Cons.prems by simp
  from Cons.prems have rest: "\<forall>kv\<in>set kvs. hashable (fst kv)" by simp
  have "copy_loop objs nm (kv # kvs) = copy_loop ?objs nm kvs"
    using Cons.prems hk by (simp add: kv m_assign_ok)
  also have "\<dots> = Inr (?objs[nm := fold (\<lambda>(k, v) t. t_put t k v) kvs (m_at ?objs nm)])"
    by (rule Cons.IH [OF len rest])
  finally show ?case
    using Cons.prems by (simp add: kv m_at_update)
qed

lemma make_copy:
  "(case m_make objs of (nm, objs') \<Rightarrow> (nm, copy_loop objs' nm (t_range tbl kvs)))
     = (length objs, Inr (objs @ [fold (\<lambda>(k, v) t. t_put t k v) (t_range tbl kvs) empty_table]))"
proof -
  have 1: "length objs < length (objs @ [empty_table])" by simp
  have 2: "\<forall>kv\<in>set (t_range tbl kvs). hashable (fst kv)" by (simp add: t_range_hashable)
  show ?thesis
    by (simp add: m_make_def copy_loop_result [OF 1 2] m_at_append_new)
qed

lemma Front_result:
  "Front h m kvs
     = Inr (length (tu_objs h),
            h\<lparr>tu_objs := tu_objs h @
                 [fold (\<lambda>(k, v) t. t_put t k v) (t_range (front_of h m) kvs) empty_table]\<rparr>)"
  using make_copy [where objs = "tu_objs h" and tbl = "front_of h m" and kvs = kvs]
  by (simp add: Front_def split: prod.splits)

lemma Back_result:
  "Back h m kvs
     = Inr (length (ut_objs h),
            h\<lparr>ut_objs := ut_objs h @
                 [fold (\<lambda>(k, v) t. t_put t k v) (t_range (back_of h m) kvs) empty_table]\<rparr>)"
  using make_copy [where objs = "ut_objs h" and tbl = "back_of h m" and kvs = kvs]
  by (simp add: Back_def split: prod.splits)

lemma Front_copies:
  assumes "range_order (front_of h m) kvs"
  shows "Front h m kvs = Inr (length (tu_objs h), h\<lparr>tu_objs := tu_objs h @ [front_of h m]\<rparr>)"
  by (simp add: Front_result t_range_order [OF assms] fold_put_range [OF assms])


section \<open>Seeding\<close>

lemma apply_loop_result:
  assumes "allocated h m" "\<forall>kv\<in>set kvs. hashable (fst kv) \<and> hashable (snd kv)"
  shows "apply_loop h m kvs =
     Inr (h\<lparr>tu_objs := (tu_objs h)[front m := fold (\<lambda>(k, v) t. t_put t k v) kvs (front_of h m)],
            ut_objs := (ut_objs h)[back' m := fold (\<lambda>(k, v) t. t_put t v k) kvs (back_of h m)]\<rparr>)"
  using assms
proof (induction kvs arbitrary: h)
  case Nil
  then show ?case
    by (simp add: front_of_def back_of_def allocated_def m_at_def)
next
  case (Cons kv kvs)
  obtain k v where kv: "kv = (k, v)" by (cases kv)
  let ?h1 = "h\<lparr>tu_objs := (tu_objs h)[front m := t_put (front_of h m) k v],
               ut_objs := (ut_objs h)[back' m := t_put (back_of h m) v k]\<rparr>"
  from Cons.prems kv have hk: "hashable k" "hashable v" by simp_all
  from Cons.prems(1) have len: "front m < length (tu_objs h)" "back' m < length (ut_objs h)"
    by (simp_all add: allocated_def)
  then have u: "front m < length (tu_objs h) \<or> t_put (front_of h m) k v = front_of h m"
    "back' m < length (ut_objs h) \<or> t_put (back_of h m) v k = back_of h m"
    by simp_all
  note t = tables_update [OF u]
  from t(4) Cons.prems(1) have al1: "allocated ?h1 m" by simp
  from Cons.prems(2) have rest: "\<forall>kv\<in>set kvs. hashable (fst kv) \<and> hashable (snd kv)" by simp
  have step: "apply_loop h m (kv # kvs) = apply_loop ?h1 m kvs"
    using len hk by (simp add: kv m_assign_ok front_of_def back_of_def)
  show ?case
    unfolding step Cons.IH [OF al1 rest] t(1,2)
    by (simp add: kv)
qed

lemma initialOption_apply_seeds:
  assumes "allocated h m" "range_order (m_at (tu_objs h) io) kvs"
    "\<forall>kv\<in>set kvs. hashable (snd kv)"
  shows "\<exists>h'. initialOption_apply (WithInitialMap io) h m kvs = Inr h' \<and>
           (\<forall>k v. t_lookup (m_at (tu_objs h) io) k = Some v \<longrightarrow> GetFront z h' m k = Inr (v, True))"
proof -
  let ?h' = "h\<lparr>tu_objs := (tu_objs h)[front m := fold (\<lambda>(k, v) t. t_put t k v) kvs (front_of h m)],
            ut_objs := (ut_objs h)[back' m := fold (\<lambda>(k, v) t. t_put t v k) kvs (back_of h m)]\<rparr>"
  from assms(2) have hk: "\<forall>kv\<in>set kvs. hashable (fst kv)"
    by (auto simp: range_order_def list_all_iff)
  with assms(3) have all: "\<forall>kv\<in>set kvs. hashable (fst kv) \<and> hashable (snd kv)" by simp
  have a: "initialOption_apply (WithInitialMap io) h m kvs = Inr ?h'"
    by (simp add: WithInitialMap_def t_range_order [OF assms(2)] apply_loop_result [OF assms(1) all])
  from assms(1) have u:
    "front m < length (tu_objs h) \<or> fold (\<lambda>(k, v) t. t_put t k v) kvs (front_of h m) = front_of h m"
    "back' m < length (ut_objs h) \<or> fold (\<lambda>(k, v) t. t_put t v k) kvs (back_of h m) = back_of h m"
    by (simp_all add: allocated_def)
  note f = tables_update(1) [OF u]
  from assms(2) have d: "distinct (map fst (val_part kvs))"
    and mo: "map_of (val_part kvs) = reg (m_at (tu_objs h) io)"
    by (simp_all add: range_order_def)
  have "GetFront z ?h' m k = Inr (v, True)" if l: "t_lookup (m_at (tu_objs h) io) k = Some v" for k v
  proof -
    from t_lookup_Some [OF l] obtain x where x: "k = Val x" "reg (m_at (tu_objs h) io) x = Some v"
      by blast
    from x(2) have "map_of (val_part kvs) x = Some v" by (simp only: mo)
    then have "map_of (rev (val_part kvs)) x = Some v"
      by (simp only: map_of_rev_distinct [OF d])
    then have "t_lookup (front_of ?h' m) k = Some v"
      unfolding f x(1) by (simp add: fold_put_reg)
    then show ?thesis by (simp add: GetFront_found)
  qed
  with a show ?thesis by blast
qed

section \<open>Frames\<close>

lemma frame_refl: "frame h m h"
  by (simp add: frame_def)

lemma frame_trans: "frame h m h' \<Longrightarrow> frame h' m h'' \<Longrightarrow> frame h m h''"
  by (auto simp: frame_def)

lemma mutate_frame:
  assumes "mutate objs a ms = Inr objs'"
  shows "length objs' = length objs \<and> (\<forall>a'. a' \<noteq> a \<longrightarrow> m_at objs' a' = m_at objs a')"
  using assms
proof (induction ms arbitrary: objs)
  case Nil
  then show ?case by simp
next
  case (Cons mu ms)
  show ?case
  proof (cases mu)
    case (Assign k v)
    with Cons.prems obtain objs1 where
      1: "m_assign objs a k v = Inr objs1" "mutate objs1 a ms = Inr objs'"
      by (auto split: sum.splits)
    from 1(1) have "length objs1 = length objs" "\<forall>a'. a' \<noteq> a \<longrightarrow> m_at objs1 a' = m_at objs a'"
      by (auto simp: m_assign_Inr m_at_update)
    with Cons.IH [OF 1(2)] show ?thesis by simp
  next
    case (Delete k)
    with Cons.prems obtain objs1 where
      1: "m_delete objs a k = Inr objs1" "mutate objs1 a ms = Inr objs'"
      by (auto split: sum.splits)
    from 1(1) have o: "objs1 = objs[a := t_del (m_at objs a) k]"
      by (cases "hashable k") (simp_all add: m_delete_ok m_delete_unhashable)
    then have "length objs1 = length objs" "\<forall>a'. a' \<noteq> a \<longrightarrow> m_at objs1 a' = m_at objs a'"
      by (simp_all add: m_at_delete)
    with Cons.IH [OF 1(2)] show ?thesis by simp
  qed
qed

lemma mutate_progress:
  assumes "a < length objs" "\<forall>mu\<in>set ms. hashable_mutation mu"
  shows "\<exists>objs'. mutate objs a ms = Inr objs'"
  using assms
proof (induction ms arbitrary: objs)
  case Nil
  then show ?case by simp
next
  case (Cons mu ms)
  show ?case
  proof (cases mu)
    case (Assign k v)
    with Cons.prems have hk: "hashable k" by simp
    have "a < length (objs[a := t_put (m_at objs a) k v])" using Cons.prems by simp
    from Cons.IH [OF this] Cons.prems(2) Assign hk Cons.prems(1) show ?thesis
      by (simp add: m_assign_ok)
  next
    case (Delete k)
    with Cons.prems have hk: "hashable k" by simp
    have "a < length (objs[a := t_del (m_at objs a) k])" using Cons.prems by simp
    from Cons.IH [OF this] Cons.prems(2) Delete hk show ?thesis
      by (simp add: m_delete_ok)
  qed
qed

section \<open>What the other writing methods compute\<close>

lemma SetBack_unhashable_key: "\<not> hashable k \<Longrightarrow> SetBack h m k v = Inl UnhashableKey"
  by (simp add: SetBack_def m_has_unhashable)

lemma SetBack_back_hit:
  assumes "t_lookup (back_of h m) k \<noteq> None"
  shows "SetBack h m k v = Inr (Some ErrKeyValExists, h)"
proof -
  from assms have "hashable k" by (cases k) simp_all
  with assms show ?thesis by (simp add: SetBack_def m_has_hashable back_of_def)
qed

lemma SetBack_unhashable_val:
  assumes "hashable k" "t_lookup (back_of h m) k = None" "\<not> hashable v"
  shows "SetBack h m k v = Inl UnhashableKey"
  using assms by (simp add: SetBack_def m_has_hashable m_has_unhashable back_of_def)

lemma SetBack_front_hit:
  assumes "hashable k" "t_lookup (back_of h m) k = None" "t_lookup (front_of h m) v \<noteq> None"
  shows "SetBack h m k v = Inr (Some ErrKeyValExists, h)"
proof -
  from assms(3) have "hashable v" by (cases v) simp_all
  with assms show ?thesis
    by (simp add: SetBack_def m_has_hashable front_of_def back_of_def)
qed

lemma SetBack_nil:
  assumes "hashable k" "hashable v" "t_lookup (back_of h m) k = None"
    "t_lookup (front_of h m) v = None" "\<not> allocated h m"
  shows "SetBack h m k v = Inl NilMapWrite"
  using assms
  by (auto simp: SetBack_def m_has_hashable front_of_def back_of_def m_assign_def allocated_def)

lemma SetBack_ok:
  assumes "allocated h m" "hashable k" "hashable v"
    "t_lookup (back_of h m) k = None" "t_lookup (front_of h m) v = None"
  shows "SetBack h m k v =
     Inr (None, h\<lparr>tu_objs := (tu_objs h)[front m := t_put (front_of h m) v k],
                  ut_objs := (ut_objs h)[back' m := t_put (back_of h m) k v]\<rparr>)"
  using assms
  by (simp add: SetBack_def m_has_hashable front_of_def back_of_def m_assign_ok allocated_def)

lemma SetBack_success:
  assumes "SetBack h m k v = Inr (None, h')"
  shows "allocated h m \<and> hashable k \<and> hashable v \<and>
         t_lookup (back_of h m) k = None \<and> t_lookup (front_of h m) v = None \<and>
         h' = h\<lparr>tu_objs := (tu_objs h)[front m := t_put (front_of h m) v k],
                ut_objs := (ut_objs h)[back' m := t_put (back_of h m) k v]\<rparr>"
proof -
  have hk: "hashable k"
    using assms SetBack_unhashable_key [of k h m v] by (cases "hashable k") simp_all
  have bk: "t_lookup (back_of h m) k = None"
    using assms SetBack_back_hit [of h m k v] by (cases "t_lookup (back_of h m) k") simp_all
  have hv: "hashable v"
    using assms SetBack_unhashable_val [OF hk bk, of v] by (cases "hashable v") simp_all
  have fv: "t_lookup (front_of h m) v = None"
    using assms SetBack_front_hit [OF hk bk, of v] by (cases "t_lookup (front_of h m) v") simp_all
  have al: "allocated h m"
    using assms SetBack_nil [OF hk hv bk fv] by (cases "allocated h m") simp_all
  from assms show ?thesis
    using hk hv bk fv al by (simp add: SetBack_ok)
qed

lemma SetBack_error:
  assumes "SetBack h m k v = Inr (Some e, h')"
  shows "h' = h"
proof (cases "t_lookup (back_of h m) k \<noteq> None")
  case True
  from SetBack_back_hit [OF True, of v] assms show ?thesis by simp
next
  case False
  then have bk: "t_lookup (back_of h m) k = None" by simp
  have hk: "hashable k"
    using assms SetBack_unhashable_key [of k h m v] by (cases "hashable k") simp_all
  have hv: "hashable v"
    using assms SetBack_unhashable_val [OF hk bk, of v] by (cases "hashable v") simp_all
  show ?thesis
  proof (cases "t_lookup (front_of h m) v \<noteq> None")
    case True
    from SetBack_front_hit [OF hk bk True] assms show ?thesis by simp
  next
    case False
    then have fv: "t_lookup (front_of h m) v = None" by simp
    have al: "allocated h m"
      using assms SetBack_nil [OF hk hv bk fv] by (cases "allocated h m") simp_all
    from assms SetBack_ok [OF al hk hv bk fv] show ?thesis by simp
  qed
qed

lemma SetFront_total:
  assumes "allocated h m" "hashable k" "hashable v"
  shows "\<exists>err h'. SetFront h m k v = Inr (err, h')"
proof (cases "t_lookup (front_of h m) k \<noteq> None")
  case True
  from SetFront_front_hit [OF True] show ?thesis by blast
next
  case f: False
  show ?thesis
  proof (cases "t_lookup (back_of h m) v \<noteq> None")
    case True
    from f SetFront_back_hit [OF assms(2) _ True] show ?thesis by blast
  next
    case False
    with f SetFront_ok [OF assms] show ?thesis by blast
  qed
qed

lemma SetBack_total:
  assumes "allocated h m" "hashable k" "hashable v"
  shows "\<exists>err h'. SetBack h m k v = Inr (err, h')"
proof (cases "t_lookup (back_of h m) k \<noteq> None")
  case True
  from SetBack_back_hit [OF True] show ?thesis by blast
next
  case b: False
  show ?thesis
  proof (cases "t_lookup (front_of h m) v \<noteq> None")
    case True
    from b SetBack_front_hit [OF assms(2) _ True] show ?thesis by blast
  next
    case False
    with b SetBack_ok [OF assms] show ?thesis by blast
  qed
qed

lemma DeleteBack_unhashable: "\<not> hashable k \<Longrightarrow> DeleteBack h m k = Inl UnhashableKey"
  by (simp add: DeleteBack_def m_index_unhashable)

lemma DeleteBack_absent:
  "hashable k \<Longrightarrow> t_lookup (back_of h m) k = None \<Longrightarrow> DeleteBack h m k = Inr h"
  by (simp add: DeleteBack_def m_index_hashable back_of_def)

lemma DeleteBack_unhashable_val:
  assumes "t_lookup (back_of h m) k = Some v" "\<not> hashable v"
  shows "DeleteBack h m k = Inl UnhashableKey"
proof -
  from assms(1) have "hashable k" by (simp add: t_lookup_hashable)
  with assms show ?thesis
    by (simp add: DeleteBack_def m_index_hashable m_delete_ok m_delete_unhashable back_of_def)
qed

lemma DeleteBack_present:
  assumes "t_lookup (back_of h m) k = Some v" "hashable v"
  shows "DeleteBack h m k =
     Inr (h\<lparr>tu_objs := (tu_objs h)[front m := t_del (front_of h m) v],
            ut_objs := (ut_objs h)[back' m := t_del (back_of h m) k]\<rparr>)"
proof -
  from assms(1) have "hashable k" by (simp add: t_lookup_hashable)
  with assms show ?thesis
    by (simp add: DeleteBack_def m_index_hashable m_delete_ok front_of_def back_of_def)
qed

lemma DeleteBack_tables:
  assumes "DeleteBack h m k = Inr h'" "t_lookup (back_of h m) k = Some v"
  shows "hashable v \<and> front_of h' m = t_del (front_of h m) v \<and>
         back_of h' m = t_del (back_of h m) k \<and> frame h m h' \<and> allocated h' m = allocated h m"
proof -
  have hv: "hashable v"
    using assms DeleteBack_unhashable_val [OF assms(2)] by (cases "hashable v") simp_all
  have u: "front m < length (tu_objs h) \<or> t_del (front_of h m) v = front_of h m"
    "back' m < length (ut_objs h) \<or> t_del (back_of h m) k = back_of h m"
    unfolding front_of_def back_of_def by (rule del_update_ok)+
  from assms(1) have "h' = h\<lparr>tu_objs := (tu_objs h)[front m := t_del (front_of h m) v],
            ut_objs := (ut_objs h)[back' m := t_del (back_of h m) k]\<rparr>"
    by (simp add: DeleteBack_present [OF assms(2) hv])
  with hv tables_update [OF u] show ?thesis by simp
qed


section \<open>Inverse tables\<close>

lemma inverse_insert:
  assumes inv: "\<forall>f b. (F f = Some b) = (B b = Some f)" and k: "F k = None" and v: "B v = None"
  shows "\<forall>f b. ((F(k \<mapsto> v)) f = Some b) = ((B(v \<mapsto> k)) b = Some f)"
proof (intro allI)
  fix f b
  have nk: "B b \<noteq> Some k"
  proof
    assume "B b = Some k"
    with inv have "F k = Some b" by blast
    with k show False by simp
  qed
  have nv: "F f \<noteq> Some v"
  proof
    assume "F f = Some v"
    with inv have "B v = Some f" by blast
    with v show False by simp
  qed
  from inv have fb: "(F f = Some b) = (B b = Some f)" by blast
  show "((F(k \<mapsto> v)) f = Some b) = ((B(v \<mapsto> k)) b = Some f)"
  proof (cases "f = k")
    case True
    then show ?thesis using nk by (cases "b = v") auto
  next
    case False
    then show ?thesis using nv fb by (cases "b = v") auto
  qed
qed

lemma inverse_remove:
  assumes inv: "\<forall>f b. (F f = Some b) = (B b = Some f)" and kv: "F k = Some v"
  shows "\<forall>f b. ((F(k := None)) f = Some b) = ((B(v := None)) b = Some f)"
proof (intro allI)
  fix f b
  from inv kv have vk: "B v = Some k" by blast
  from inv have fb: "(F f = Some b) = (B b = Some f)" by blast
  show "((F(k := None)) f = Some b) = ((B(v := None)) b = Some f)"
  proof (cases "f = k")
    case True
    with kv vk fb show ?thesis by (cases "b = v") auto
  next
    case False
    with kv vk fb show ?thesis by (cases "b = v") auto
  qed
qed


lemma t_lookup_put_Val: "t_lookup (t_put tbl (Val x) v) = (t_lookup tbl)(Val x \<mapsto> v)"
proof (rule ext)
  fix k' show "t_lookup (t_put tbl (Val x) v) k' = ((t_lookup tbl)(Val x \<mapsto> v)) k'"
    by (cases k') simp_all
qed

lemma t_lookup_del_Val: "t_lookup (t_del tbl (Val x)) = (t_lookup tbl)(Val x := None)"
proof (rule ext)
  fix k' show "t_lookup (t_del tbl (Val x)) k' = ((t_lookup tbl)(Val x := None)) k'"
    by (cases k') simp_all
qed







lemma consistent_put:
  assumes "consistent h m" "t_lookup (front_of h m) (Val x) = None"
    "t_lookup (back_of h m) (Val y) = None"
  shows "consistent (h\<lparr>tu_objs := (tu_objs h)[front m := t_put (front_of h m) (Val x) (Val y)],
                        ut_objs := (ut_objs h)[back' m := t_put (back_of h m) (Val y) (Val x)]\<rparr>) m"
proof -
  from assms(1) have al: "allocated h m"
    and i: "\<forall>f b. (t_lookup (front_of h m) f = Some b) = (t_lookup (back_of h m) b = Some f)"
    and fin: "finite (dom (reg (front_of h m)))"
    and e: "irr (front_of h m) = {#}" "irr (back_of h m) = {#}"
    by (simp_all add: consistent_def inverse_consistent_def)
  from al have u:
    "front m < length (tu_objs h) \<or> t_put (front_of h m) (Val x) (Val y) = front_of h m"
    "back' m < length (ut_objs h) \<or> t_put (back_of h m) (Val y) (Val x) = back_of h m"
    by (simp_all add: allocated_def)
  note t = tables_update [OF u]
  note ins = inverse_insert [OF i assms(2,3)]
  show ?thesis
    unfolding consistent_def inverse_consistent_def t(1,2,4) t_lookup_put_Val
    using al ins fin e by simp
qed

lemma consistent_del:
  assumes "consistent h m" "t_lookup (front_of h m) (Val x) = Some (Val y)"
  shows "consistent (h\<lparr>tu_objs := (tu_objs h)[front m := t_del (front_of h m) (Val x)],
                        ut_objs := (ut_objs h)[back' m := t_del (back_of h m) (Val y)]\<rparr>) m"
proof -
  from assms(1) have al: "allocated h m"
    and i: "\<forall>f b. (t_lookup (front_of h m) f = Some b) = (t_lookup (back_of h m) b = Some f)"
    and fin: "finite (dom (reg (front_of h m)))"
    and e: "irr (front_of h m) = {#}" "irr (back_of h m) = {#}"
    by (simp_all add: consistent_def inverse_consistent_def)
  from al have u:
    "front m < length (tu_objs h) \<or> t_del (front_of h m) (Val x) = front_of h m"
    "back' m < length (ut_objs h) \<or> t_del (back_of h m) (Val y) = back_of h m"
    by (simp_all add: allocated_def)
  note t = tables_update [OF u]
  note rem = inverse_remove [OF i assms(2)]
  show ?thesis
    unfolding consistent_def inverse_consistent_def t(1,2,4) t_lookup_del_Val
    using al rem fin e by simp
qed

lemma not_nan_Val: "hashable k \<Longrightarrow> \<not> is_nan k \<Longrightarrow> \<exists>x. k = Val x"
  by (cases k) simp_all

lemma values_put:
  assumes "values_hashable h m" "hashable k" "hashable v"
    "front_of h' m = t_put (front_of h m) k v" "back_of h' m = t_put (back_of h m) v k"
  shows "values_hashable h' m"
  using assms by (auto simp: values_hashable_def t_lookup_put split: if_splits)

lemma values_del:
  assumes "values_hashable h m"
    "front_of h' m = t_del (front_of h m) k" "back_of h' m = t_del (back_of h m) v"
  shows "values_hashable h' m"
  using assms by (auto simp: values_hashable_def t_lookup_del split: if_splits)

lemma values_same:
  assumes "values_hashable h m" "front_of h' m = front_of h m" "back_of h' m = back_of h m"
  shows "values_hashable h' m"
  using assms by (simp add: values_hashable_def)

lemma consistent_same:
  assumes "consistent h m" "allocated h' m" "front_of h' m = front_of h m"
    "back_of h' m = back_of h m"
  shows "consistent h' m"
  using assms by (simp add: consistent_def inverse_consistent_def)


section \<open>What a call leaves true\<close>

lemma SetFront_step:
  assumes "SetFront h m k v = Inr (err, h')"
  shows "frame h m h' \<and> allocated h' m = allocated h m \<and>
         (values_hashable h m \<longrightarrow> values_hashable h' m) \<and>
         (consistent h m \<and> \<not> is_nan k \<and> \<not> is_nan v \<longrightarrow> consistent h' m)"
proof (cases err)
  case (Some e)
  with assms have "h' = h" using SetFront_error by blast
  then show ?thesis by (simp add: frame_refl)
next
  case None
  with assms have s: "SetFront h m k v = Inr (None, h')" by simp
  note i = SetFront_success [OF s]
  from i have u: "front m < length (tu_objs h) \<or> t_put (front_of h m) k v = front_of h m"
    "back' m < length (ut_objs h) \<or> t_put (back_of h m) v k = back_of h m"
    by (simp_all add: allocated_def)
  note t = tables_update [OF u]
  from i have h': "h' = h\<lparr>tu_objs := (tu_objs h)[front m := t_put (front_of h m) k v],
                ut_objs := (ut_objs h)[back' m := t_put (back_of h m) v k]\<rparr>" by simp
  have 1: "frame h m h'" "allocated h' m = allocated h m"
    unfolding h' by (rule t(3), rule t(4))
  have 2: "values_hashable h m \<longrightarrow> values_hashable h' m"
  proof
    assume vh: "values_hashable h m"
    from i have "hashable k" "hashable v" by simp_all
    from values_put [OF vh this, of h'] t(1,2) show "values_hashable h' m"
      unfolding h' by simp
  qed
  have 3: "consistent h m \<and> \<not> is_nan k \<and> \<not> is_nan v \<longrightarrow> consistent h' m"
  proof
    assume a: "consistent h m \<and> \<not> is_nan k \<and> \<not> is_nan v"
    with i not_nan_Val [of k] not_nan_Val [of v] obtain x y where xy: "k = Val x" "v = Val y"
      by blast
    from i have "t_lookup (front_of h m) (Val x) = None" "t_lookup (back_of h m) (Val y) = None"
      by (simp_all add: xy)
    from consistent_put [OF _ this] a show "consistent h' m"
      unfolding h' xy by simp
  qed
  from 1 2 3 show ?thesis by simp
qed

lemma SetBack_step:
  assumes "SetBack h m k v = Inr (err, h')"
  shows "frame h m h' \<and> allocated h' m = allocated h m \<and>
         (values_hashable h m \<longrightarrow> values_hashable h' m) \<and>
         (consistent h m \<and> \<not> is_nan k \<and> \<not> is_nan v \<longrightarrow> consistent h' m)"
proof (cases err)
  case (Some e)
  with assms have "h' = h" using SetBack_error by blast
  then show ?thesis by (simp add: frame_refl)
next
  case None
  with assms have s: "SetBack h m k v = Inr (None, h')" by simp
  note i = SetBack_success [OF s]
  from i have u: "front m < length (tu_objs h) \<or> t_put (front_of h m) v k = front_of h m"
    "back' m < length (ut_objs h) \<or> t_put (back_of h m) k v = back_of h m"
    by (simp_all add: allocated_def)
  note t = tables_update [OF u]
  from i have h': "h' = h\<lparr>tu_objs := (tu_objs h)[front m := t_put (front_of h m) v k],
                ut_objs := (ut_objs h)[back' m := t_put (back_of h m) k v]\<rparr>" by simp
  have 1: "frame h m h'" "allocated h' m = allocated h m"
    unfolding h' by (rule t(3), rule t(4))
  have 2: "values_hashable h m \<longrightarrow> values_hashable h' m"
  proof
    assume vh: "values_hashable h m"
    from i have "hashable v" "hashable k" by simp_all
    from values_put [OF vh this, of h'] t(1,2) show "values_hashable h' m"
      unfolding h' by simp
  qed
  have 3: "consistent h m \<and> \<not> is_nan k \<and> \<not> is_nan v \<longrightarrow> consistent h' m"
  proof
    assume a: "consistent h m \<and> \<not> is_nan k \<and> \<not> is_nan v"
    with i not_nan_Val [of k] not_nan_Val [of v] obtain y x where xy: "k = Val y" "v = Val x"
      by blast
    from i have "t_lookup (front_of h m) (Val x) = None" "t_lookup (back_of h m) (Val y) = None"
      by (simp_all add: xy)
    from consistent_put [OF _ this] a show "consistent h' m"
      unfolding h' xy by simp
  qed
  from 1 2 3 show ?thesis by simp
qed

lemma DeleteFront_step:
  assumes "DeleteFront h m k = Inr h'"
  shows "frame h m h' \<and> allocated h' m = allocated h m \<and>
         (values_hashable h m \<longrightarrow> values_hashable h' m) \<and>
         (consistent h m \<longrightarrow> consistent h' m)"
proof (cases "t_lookup (front_of h m) k")
  case None
  have "hashable k"
    using assms DeleteFront_unhashable [of k h m] by (cases "hashable k") simp_all
  from DeleteFront_absent [OF this None] assms have "h' = h" by simp
  then show ?thesis by (simp add: frame_refl)
next
  case (Some v)
  note t = DeleteFront_tables [OF assms Some]
  have 2: "values_hashable h m \<longrightarrow> values_hashable h' m"
    using values_del [of h m h' k v] t by simp
  have 3: "consistent h m \<longrightarrow> consistent h' m"
  proof
    assume c: "consistent h m"
    then have i: "\<forall>f b. (t_lookup (front_of h m) f = Some b) = (t_lookup (back_of h m) b = Some f)"
      by (simp add: consistent_def inverse_consistent_def)
    from t_lookup_Some [OF Some] obtain x where x: "k = Val x" by blast
    from i Some have "t_lookup (back_of h m) v = Some k" by blast
    from t_lookup_Some [OF this] obtain y where y: "v = Val y" by blast
    from t have hv: "hashable v" by simp
    from assms DeleteFront_present [OF Some hv]
    have h': "h' = h\<lparr>tu_objs := (tu_objs h)[front m := t_del (front_of h m) k],
            ut_objs := (ut_objs h)[back' m := t_del (back_of h m) v]\<rparr>" by simp
    from Some have "t_lookup (front_of h m) (Val x) = Some (Val y)" by (simp add: x y)
    from consistent_del [OF c this] show "consistent h' m"
      unfolding h' x y .
  qed
  from t 2 3 show ?thesis by simp
qed

lemma DeleteBack_step:
  assumes "DeleteBack h m k = Inr h'"
  shows "frame h m h' \<and> allocated h' m = allocated h m \<and>
         (values_hashable h m \<longrightarrow> values_hashable h' m) \<and>
         (consistent h m \<longrightarrow> consistent h' m)"
proof (cases "t_lookup (back_of h m) k")
  case None
  have "hashable k"
    using assms DeleteBack_unhashable [of k h m] by (cases "hashable k") simp_all
  from DeleteBack_absent [OF this None] assms have "h' = h" by simp
  then show ?thesis by (simp add: frame_refl)
next
  case (Some v)
  note t = DeleteBack_tables [OF assms Some]
  have 2: "values_hashable h m \<longrightarrow> values_hashable h' m"
    using values_del [of h m h' v k] t by simp
  have 3: "consistent h m \<longrightarrow> consistent h' m"
  proof
    assume c: "consistent h m"
    then have i: "\<forall>f b. (t_lookup (front_of h m) f = Some b) = (t_lookup (back_of h m) b = Some f)"
      by (simp add: consistent_def inverse_consistent_def)
    from t_lookup_Some [OF Some] obtain y where y: "k = Val y" by blast
    from i Some have fv: "t_lookup (front_of h m) v = Some k" by blast
    from t_lookup_Some [OF this] obtain x where x: "v = Val x" by blast
    from t have hv: "hashable v" by simp
    from assms DeleteBack_present [OF Some hv]
    have h': "h' = h\<lparr>tu_objs := (tu_objs h)[front m := t_del (front_of h m) v],
            ut_objs := (ut_objs h)[back' m := t_del (back_of h m) k]\<rparr>" by simp
    from fv have "t_lookup (front_of h m) (Val x) = Some (Val y)" by (simp add: x y)
    from consistent_del [OF c this] show "consistent h' m"
      unfolding h' x y .
  qed
  from t 2 3 show ?thesis by simp
qed

lemma alloc_tu_step:
  assumes "allocated h m"
  shows "allocated (h\<lparr>tu_objs := tu_objs h @ [tbl]\<rparr>) m \<and> frame h m (h\<lparr>tu_objs := tu_objs h @ [tbl]\<rparr>) \<and>
         front_of (h\<lparr>tu_objs := tu_objs h @ [tbl]\<rparr>) m = front_of h m \<and>
         back_of (h\<lparr>tu_objs := tu_objs h @ [tbl]\<rparr>) m = back_of h m"
  using assms
  by (simp add: allocated_def frame_def front_of_def back_of_def m_at_append_old)

lemma alloc_ut_step:
  assumes "allocated h m"
  shows "allocated (h\<lparr>ut_objs := ut_objs h @ [tbl]\<rparr>) m \<and> frame h m (h\<lparr>ut_objs := ut_objs h @ [tbl]\<rparr>) \<and>
         front_of (h\<lparr>ut_objs := ut_objs h @ [tbl]\<rparr>) m = front_of h m \<and>
         back_of (h\<lparr>ut_objs := ut_objs h @ [tbl]\<rparr>) m = back_of h m"
  using assms
  by (simp add: allocated_def frame_def front_of_def back_of_def m_at_append_old)

lemma same_tables_step:
  assumes "allocated h' m" "frame h m h'" "front_of h' m = front_of h m" "back_of h' m = back_of h m"
  shows "allocated h' m \<and> frame h m h' \<and>
         (values_hashable h m \<longrightarrow> values_hashable h' m) \<and>
         (consistent h m \<and> P \<longrightarrow> consistent h' m)"
  using assms values_same [of h m h'] consistent_same [of h m h'] by blast

lemma exec_step:
  assumes "allocated h m" "exec T h m c = Inr (r, h')"
  shows "allocated h' m \<and> frame h m h' \<and>
         (values_hashable h m \<longrightarrow> values_hashable h' m) \<and>
         (consistent h m \<and> nan_free_call c \<longrightarrow> consistent h' m)"
proof (cases c)
  case (CallGetFront k)
  with assms have "h' = h" by (auto split: sum.splits)
  with assms(1) show ?thesis by (simp add: frame_refl)
next
  case (CallGetBack k)
  with assms have "h' = h" by (auto split: sum.splits)
  with assms(1) show ?thesis by (simp add: frame_refl)
next
  case (CallSetFront k v)
  with assms(2) obtain err where "SetFront h m k v = Inr (err, h')" by (auto split: sum.splits)
  from SetFront_step [OF this] assms(1) CallSetFront show ?thesis by simp
next
  case (CallSetBack k v)
  with assms(2) obtain err where "SetBack h m k v = Inr (err, h')" by (auto split: sum.splits)
  from SetBack_step [OF this] assms(1) CallSetBack show ?thesis by simp
next
  case (CallDeleteFront k)
  with assms(2) have "DeleteFront h m k = Inr h'" by (auto split: sum.splits)
  from DeleteFront_step [OF this] assms(1) show ?thesis by simp
next
  case (CallDeleteBack k)
  with assms(2) have "DeleteBack h m k = Inr h'" by (auto split: sum.splits)
  from DeleteBack_step [OF this] assms(1) show ?thesis by simp
next
  case (CallFront kvs)
  with assms(2) have h': "h' = h\<lparr>tu_objs := tu_objs h @
      [fold (\<lambda>(k, v) t. t_put t k v) (t_range (front_of h m) kvs) empty_table]\<rparr>"
    by (simp add: Front_result)
  from alloc_tu_step [OF assms(1)] show ?thesis
    unfolding h' by (intro same_tables_step) simp_all
next
  case (CallBack kvs)
  with assms(2) have h': "h' = h\<lparr>ut_objs := ut_objs h @
      [fold (\<lambda>(k, v) t. t_put t k v) (t_range (back_of h m) kvs) empty_table]\<rparr>"
    by (simp add: Back_result)
  from alloc_ut_step [OF assms(1)] show ?thesis
    unfolding h' by (intro same_tables_step) simp_all
next
  case CallLen
  with assms show ?thesis by (simp add: frame_refl)
next
  case (CallFor kvs fn s)
  with assms show ?thesis by (simp add: frame_refl)
next
  case (CallString kvs)
  with assms show ?thesis by (simp add: frame_refl)
qed

lemma exec_progress:
  assumes "allocated h m" "values_hashable h m" "hashable_call c"
  shows "\<exists>r h'. exec T h m c = Inr (r, h')"
proof (cases c)
  case (CallGetFront k)
  with assms(3) show ?thesis by (simp add: GetFront_hashable split: option.splits)
next
  case (CallGetBack k)
  with assms(3) show ?thesis by (simp add: GetBack_hashable split: option.splits)
next
  case (CallSetFront k v)
  with assms(3) SetFront_total [OF assms(1), of k v] show ?thesis by auto
next
  case (CallSetBack k v)
  with assms(3) SetBack_total [OF assms(1), of k v] show ?thesis by auto
next
  case (CallDeleteFront k)
  with assms(3) have hk: "hashable k" by simp
  have "\<exists>h'. DeleteFront h m k = Inr h'"
  proof (cases "t_lookup (front_of h m) k")
    case None
    from DeleteFront_absent [OF hk None] show ?thesis by blast
  next
    case (Some v)
    with assms(2) have "hashable v" by (auto simp: values_hashable_def)
    from DeleteFront_present [OF Some this] show ?thesis by blast
  qed
  with CallDeleteFront show ?thesis by auto
next
  case (CallDeleteBack k)
  with assms(3) have hk: "hashable k" by simp
  have "\<exists>h'. DeleteBack h m k = Inr h'"
  proof (cases "t_lookup (back_of h m) k")
    case None
    from DeleteBack_absent [OF hk None] show ?thesis by blast
  next
    case (Some v)
    with assms(2) have "hashable v" by (auto simp: values_hashable_def)
    from DeleteBack_present [OF Some this] show ?thesis by blast
  qed
  with CallDeleteBack show ?thesis by auto
next
  case (CallFront kvs)
  then show ?thesis by (simp add: Front_result)
next
  case (CallBack kvs)
  then show ?thesis by (simp add: Back_result)
next
  case CallLen
  then show ?thesis by simp
next
  case (CallFor kvs fn s)
  then show ?thesis by simp
next
  case (CallString kvs)
  then show ?thesis by simp
qed

lemma run_steps:
  assumes "allocated h m" "run T h m cs = Inr h'"
  shows "allocated h' m \<and> frame h m h' \<and>
         (values_hashable h m \<longrightarrow> values_hashable h' m) \<and>
         (consistent h m \<and> (\<forall>c\<in>set cs. nan_free_call c) \<longrightarrow> consistent h' m)"
  using assms
proof (induction cs arbitrary: h)
  case Nil
  then show ?case by (simp add: frame_refl)
next
  case (Cons c cs)
  from Cons.prems(2) obtain r h1 where 1: "exec T h m c = Inr (r, h1)" "run T h1 m cs = Inr h'"
    by (auto split: sum.splits)
  note e = exec_step [OF Cons.prems(1) 1(1)]
  from e have al: "allocated h1 m" by simp
  note i = Cons.IH [OF al 1(2)]
  from e i frame_trans [of h m h1 h'] show ?case by auto
qed

lemma run_progress:
  assumes "allocated h m" "values_hashable h m" "\<forall>c\<in>set cs. hashable_call c"
  shows "\<exists>h'. run T h m cs = Inr h'"
  using assms
proof (induction cs arbitrary: h)
  case Nil
  then show ?case by simp
next
  case (Cons c cs)
  from Cons.prems(3) have hc: "hashable_call c" and rest: "\<forall>c\<in>set cs. hashable_call c" by simp_all
  from exec_progress [OF Cons.prems(1,2) hc, of T] obtain r h1 where
    1: "exec T h m c = Inr (r, h1)" by blast
  note e = exec_step [OF Cons.prems(1) 1]
  from e Cons.prems(2) have "allocated h1 m" "values_hashable h1 m" by simp_all
  from Cons.IH [OF this rest] 1 show ?case by simp
qed


section \<open>The invariant\<close>





section \<open>Snapshots are copies\<close>

text \<open>
  C7. On a map whose tables are allocated, \<open>Front()\<close> returns a reference \<open>nm\<close> that
  was not allocated before the call, to a table holding exactly the entries of the front
  table; no table that existed is changed by the call. Whatever assignments and
  deletions are then made through \<open>nm\<close>, \<open>GetFront\<close> and \<open>GetBack\<close> answer as they did
  before, and those with keys that can be hashed do all go through; and whatever methods
  are then called on the map, the table behind \<open>nm\<close> keeps the entries it was given, and
  those calls return when the values of the map and the arguments can be hashed.
\<close>

theorem Front_snapshot_independent:
  assumes "allocated h m" "range_order (front_of h m) kvs"
  shows "\<exists>nm h'. Front h m kvs = Inr (nm, h') \<and>
           \<not> nm < length (tu_objs h) \<and> nm < length (tu_objs h') \<and>
           m_at (tu_objs h') nm = front_of h m \<and>
           (\<forall>a<length (tu_objs h). m_at (tu_objs h') a = m_at (tu_objs h) a) \<and>
           ut_objs h' = ut_objs h \<and>
           (\<forall>ms tus. mutate (tu_objs h') nm ms = Inr tus \<longrightarrow>
              (\<forall>z k. GetFront z (h'\<lparr>tu_objs := tus\<rparr>) m k = GetFront z h m k) \<and>
              (\<forall>z b. GetBack z (h'\<lparr>tu_objs := tus\<rparr>) m b = GetBack z h m b)) \<and>
           (\<forall>ms. (\<forall>mu\<in>set ms. hashable_mutation mu) \<longrightarrow>
              (\<exists>tus. mutate (tu_objs h') nm ms = Inr tus)) \<and>
           (\<forall>T (cs :: ('t, 'u, 's) call list) h''. run T h' m cs = Inr h'' \<longrightarrow>
              m_at (tu_objs h'') nm = front_of h m) \<and>
           (\<forall>T (cs :: ('t, 'u, 's) call list).
              values_hashable h m \<and> (\<forall>c\<in>set cs. hashable_call c) \<longrightarrow>
              (\<exists>h''. run T h' m cs = Inr h''))"
proof -
  let ?nm = "length (tu_objs h)"
  let ?h' = "h\<lparr>tu_objs := tu_objs h @ [front_of h m]\<rparr>"
  from assms(1) have fm: "front m < ?nm" by (simp add: allocated_def)
  note F = Front_copies [OF assms(2)]
  note a = alloc_tu_step [OF assms(1), of "front_of h m"]
  have new: "m_at (tu_objs ?h') ?nm = front_of h m" by (simp add: m_at_append_new)
  have old: "\<forall>a<length (tu_objs h). m_at (tu_objs ?h') a = m_at (tu_objs h) a"
    by (simp add: m_at_append_old)
  have mut: "(\<forall>z k. GetFront z (?h'\<lparr>tu_objs := tus\<rparr>) m k = GetFront z h m k) \<and>
             (\<forall>z b. GetBack z (?h'\<lparr>tu_objs := tus\<rparr>) m b = GetBack z h m b)"
    if t: "mutate (tu_objs ?h') ?nm ms = Inr tus" for ms tus
  proof -
    from mutate_frame [OF t] have
      "\<forall>a'. a' \<noteq> ?nm \<longrightarrow> m_at tus a' = m_at (tu_objs ?h') a'" by blast
    with fm have "m_at tus (front m) = m_at (tu_objs h) (front m)"
      by (simp add: m_at_append_old)
    then show ?thesis by (simp add: GetFront_def GetBack_def m_index_def)
  qed
  have mutp: "\<exists>tus. mutate (tu_objs ?h') ?nm ms = Inr tus"
    if "\<forall>mu\<in>set ms. hashable_mutation mu" for ms
    by (rule mutate_progress [OF _ that]) simp
  have al': "allocated ?h' m" using a by simp
  have keep: "m_at (tu_objs h'') ?nm = front_of h m"
    if r: "run T ?h' m cs = Inr h''" for T and cs :: "('t, 'u, 's) call list" and h''
  proof -
    from run_steps [OF al' r] have f: "frame ?h' m h''" by blast
    from f fm have "m_at (tu_objs h'') ?nm = m_at (tu_objs ?h') ?nm"
      by (simp add: frame_def)
    with new show ?thesis by simp
  qed
  have live: "\<exists>h''. run T ?h' m cs = Inr h''"
    if "values_hashable h m \<and> (\<forall>c\<in>set cs. hashable_call c)"
    for T and cs :: "('t, 'u, 's) call list"
  proof -
    from that a values_same [of h m ?h'] have "values_hashable ?h' m" by simp
    from run_progress [OF al' this] that show ?thesis by blast
  qed
  show ?thesis
  proof (intro exI conjI)
    show "Front h m kvs = Inr (?nm, ?h')" by (rule F)
    show "\<not> ?nm < length (tu_objs h)" by simp
    show "?nm < length (tu_objs ?h')" by simp
    show "m_at (tu_objs ?h') ?nm = front_of h m" by (rule new)
    show "\<forall>a<length (tu_objs h). m_at (tu_objs ?h') a = m_at (tu_objs h) a" by (rule old)
    show "ut_objs ?h' = ut_objs h" by simp
    show "\<forall>ms tus. mutate (tu_objs ?h') ?nm ms = Inr tus \<longrightarrow>
              (\<forall>z k. GetFront z (?h'\<lparr>tu_objs := tus\<rparr>) m k = GetFront z h m k) \<and>
              (\<forall>z b. GetBack z (?h'\<lparr>tu_objs := tus\<rparr>) m b = GetBack z h m b)"
      using mut by blast
    show "\<forall>ms. (\<forall>mu\<in>set ms. hashable_mutation mu) \<longrightarrow>
              (\<exists>tus. mutate (tu_objs ?h') ?nm ms = Inr tus)"
      using mutp by blast
    show "\<forall>T (cs :: ('t, 'u, 's) call list) h''. run T ?h' m cs = Inr h'' \<longrightarrow>
              m_at (tu_objs h'') ?nm = front_of h m"
      using keep by blast
    show "\<forall>T (cs :: ('t, 'u, 's) call list).
              values_hashable h m \<and> (\<forall>c\<in>set cs. hashable_call c) \<longrightarrow>
              (\<exists>h''. run T ?h' m cs = Inr h'')"
      using live by blast
  qed
qed

theorem Front_snapshot_independent_witness:
  "allocated \<lparr>tu_objs = [\<lparr>reg = [''a'' \<mapsto> Val ''b''], irr = {#}\<rparr>],
              ut_objs = [\<lparr>reg = [''b'' \<mapsto> Val ''a''], irr = {#}\<rparr>]\<rparr> \<lparr>front = 0, back' = 0\<rparr> \<and>
   range_order (front_of \<lparr>tu_objs = [\<lparr>reg = [''a'' \<mapsto> Val ''b''], irr = {#}\<rparr>],
                          ut_objs = [\<lparr>reg = [''b'' \<mapsto> Val ''a''], irr = {#}\<rparr>]\<rparr>
                  \<lparr>front = 0, back' = 0\<rparr>) [(Val ''a'', Val ''b'')] \<and>
   Front \<lparr>tu_objs = [\<lparr>reg = [''a'' \<mapsto> Val ''b''], irr = {#}\<rparr>],
          ut_objs = [\<lparr>reg = [''b'' \<mapsto> Val ''a''], irr = {#}\<rparr>]\<rparr> \<lparr>front = 0, back' = 0\<rparr>
         [(Val ''a'', Val ''b'')]
     = Inr (1, \<lparr>tu_objs = [\<lparr>reg = [''a'' \<mapsto> Val ''b''], irr = {#}\<rparr>,
                           \<lparr>reg = [''a'' \<mapsto> Val ''b''], irr = {#}\<rparr>],
                ut_objs = [\<lparr>reg = [''b'' \<mapsto> Val ''a''], irr = {#}\<rparr>]\<rparr>) \<and>
   list_all hashable_mutation [Assign (Val ''a'') (Val ''z''), Delete (Val ''q'')] \<and>
   mutate [\<lparr>reg = [''a'' \<mapsto> Val ''b''], irr = {#}\<rparr>, \<lparr>reg = [''a'' \<mapsto> Val ''b''], irr = {#}\<rparr>] 1
          [Assign (Val ''a'') (Val ''z''), Delete (Val ''q'')]
     = Inr [\<lparr>reg = [''a'' \<mapsto> Val ''b''], irr = {#}\<rparr>, \<lparr>reg = [''a'' \<mapsto> Val ''z''], irr = {#}\<rparr>] \<and>
   GetFront (Val '''') \<lparr>tu_objs = [\<lparr>reg = [''a'' \<mapsto> Val ''b''], irr = {#}\<rparr>,
                                   \<lparr>reg = [''a'' \<mapsto> Val ''z''], irr = {#}\<rparr>],
                        ut_objs = [\<lparr>reg = [''b'' \<mapsto> Val ''a''], irr = {#}\<rparr>]\<rparr>
      \<lparr>front = 0, back' = 0\<rparr> (Val ''a'') = Inr (Val ''b'', True) \<and>
   values_hashable \<lparr>tu_objs = [\<lparr>reg = [''a'' \<mapsto> Val ''b''], irr = {#}\<rparr>],
                    ut_objs = [\<lparr>reg = [''b'' \<mapsto> Val ''a''], irr = {#}\<rparr>]\<rparr> \<lparr>front = 0, back' = 0\<rparr> \<and>
   list_all hashable_call
     [CallDeleteFront (Val ''a''), CallSetFront (Val ''c'') (Val ''d'') :: (string, string, unit) call] \<and>
   run \<lparr>zeroT = Val '''', zeroU = Val '''', fmtT = case_gval id id id, fmtU = case_gval id id id\<rparr>
       \<lparr>tu_objs = [\<lparr>reg = [''a'' \<mapsto> Val ''b''], irr = {#}\<rparr>,
                   \<lparr>reg = [''a'' \<mapsto> Val ''b''], irr = {#}\<rparr>],
        ut_objs = [\<lparr>reg = [''b'' \<mapsto> Val ''a''], irr = {#}\<rparr>]\<rparr>
       \<lparr>front = 0, back' = 0\<rparr>
       [CallDeleteFront (Val ''a''), CallSetFront (Val ''c'') (Val ''d'') :: (string, string, unit) call]
     = Inr \<lparr>tu_objs = [\<lparr>reg = [''c'' \<mapsto> Val ''d''], irr = {#}\<rparr>,
                        \<lparr>reg = [''a'' \<mapsto> Val ''b''], irr = {#}\<rparr>],
            ut_objs = [\<lparr>reg = [''d'' \<mapsto> Val ''c''], irr = {#}\<rparr>]\<rparr> \<and>
   GetFront (Val '''') \<lparr>tu_objs = [\<lparr>reg = [''c'' \<mapsto> Val ''d''], irr = {#}\<rparr>,
                                   \<lparr>reg = [''a'' \<mapsto> Val ''b''], irr = {#}\<rparr>],
                        ut_objs = [\<lparr>reg = [''d'' \<mapsto> Val ''c''], irr = {#}\<rparr>]\<rparr>
      \<lparr>front = 0, back' = 0\<rparr> (Val ''a'') = Inr (Val '''', False) \<and>
   t_lookup (m_at [\<lparr>reg = [''c'' \<mapsto> Val ''d''], irr = {#}\<rparr>,
                   \<lparr>reg = [''a'' \<mapsto> Val ''b''], irr = {#}\<rparr>] 1) (Val ''a'') = Some (Val ''b'')"
proof -
  let ?h = "\<lparr>tu_objs = [\<lparr>reg = [''a'' \<mapsto> Val ''b''], irr = {#}\<rparr>],
             ut_objs = [\<lparr>reg = [''b'' \<mapsto> Val ''a''], irr = {#}\<rparr>]\<rparr> :: (string, string) heap"
  let ?h' = "\<lparr>tu_objs = [\<lparr>reg = [''a'' \<mapsto> Val ''b''], irr = {#}\<rparr>,
                         \<lparr>reg = [''a'' \<mapsto> Val ''b''], irr = {#}\<rparr>],
              ut_objs = [\<lparr>reg = [''b'' \<mapsto> Val ''a''], irr = {#}\<rparr>]\<rparr> :: (string, string) heap"
  let ?h2 = "\<lparr>tu_objs = [\<lparr>reg = [''c'' \<mapsto> Val ''d''], irr = {#}\<rparr>,
                         \<lparr>reg = [''a'' \<mapsto> Val ''b''], irr = {#}\<rparr>],
              ut_objs = [\<lparr>reg = [''d'' \<mapsto> Val ''c''], irr = {#}\<rparr>]\<rparr> :: (string, string) heap"
  let ?tus = "[\<lparr>reg = [''a'' \<mapsto> Val ''b''], irr = {#}\<rparr>, \<lparr>reg = [''a'' \<mapsto> Val ''z''], irr = {#}\<rparr>]
                :: (string, string gval) table list"
  let ?m = "\<lparr>front = 0, back' = 0\<rparr>"
  let ?T = "\<lparr>zeroT = Val '''', zeroU = Val '''', fmtT = case_gval id id id,
             fmtU = case_gval id id id\<rparr> :: (string, string) inst"
  let ?ms = "[Assign (Val ''a'') (Val ''z''), Delete (Val ''q'')] :: (string, string gval) mutation list"
  let ?cs = "[CallDeleteFront (Val ''a''), CallSetFront (Val ''c'') (Val ''d'')
               :: (string, string, unit) call]"
  have al: "allocated ?h ?m" by (simp add: allocated_def)
  have ro: "range_order (front_of ?h ?m) [(Val ''a'', Val ''b'')]"
    by (simp add: range_order_def front_of_def m_at_def)
  have fr: "Front ?h ?m [(Val ''a'', Val ''b'')] = Inr (1, ?h')"
    by (simp add: eval_defs Front_def t_range_def)
  have hm: "list_all hashable_mutation ?ms" by simp
  have mu: "mutate (tu_objs ?h') 1 ?ms = Inr ?tus"
    by (simp add: m_assign_def m_delete_def)
  have g0: "GetFront (Val '''') ?h ?m (Val ''a'') = Inr (Val ''b'', True)"
    by (simp add: eval_defs)
  have vh: "values_hashable ?h ?m"
    by (auto simp: values_hashable_def front_of_def back_of_def m_at_def
        dest!: t_lookup_Some split: if_splits)
  have hc: "list_all hashable_call ?cs" by simp
  have r: "run ?T ?h' ?m ?cs = Inr ?h2"
    by (simp add: eval_defs)
  have g2: "GetFront (Val '''') ?h2 ?m (Val ''a'') = Inr (Val '''', False)"
    by (simp add: eval_defs)
  from Front_snapshot_independent [OF al ro, where 's = unit] obtain nm h' where
    F: "Front ?h ?m [(Val ''a'', Val ''b'')] = Inr (nm, h')" and
    M: "\<forall>ms tus. mutate (tu_objs h') nm ms = Inr tus \<longrightarrow>
              (\<forall>z k. GetFront z (h'\<lparr>tu_objs := tus\<rparr>) ?m k = GetFront z ?h ?m k) \<and>
              (\<forall>z b. GetBack z (h'\<lparr>tu_objs := tus\<rparr>) ?m b = GetBack z ?h ?m b)" and
    L: "\<forall>T (cs :: (string, string, unit) call list) h''. run T h' ?m cs = Inr h'' \<longrightarrow>
              m_at (tu_objs h'') nm = front_of ?h ?m"
    by blast
  from F fr have nm: "nm = 1" and h': "h' = ?h'" by simp_all
  from M mu have "GetFront (Val '''') (?h'\<lparr>tu_objs := ?tus\<rparr>) ?m (Val ''a'')
                    = GetFront (Val '''') ?h ?m (Val ''a'')"
    unfolding nm h' by blast
  with g0 have g1: "GetFront (Val '''') \<lparr>tu_objs = ?tus,
      ut_objs = [\<lparr>reg = [''b'' \<mapsto> Val ''a''], irr = {#}\<rparr>]\<rparr> ?m (Val ''a'') = Inr (Val ''b'', True)"
    by simp
  from L r have "m_at (tu_objs ?h2) 1 = front_of ?h ?m"
    unfolding nm h' by blast
  then have c1: "t_lookup (m_at [\<lparr>reg = [''c'' \<mapsto> Val ''d''], irr = {#}\<rparr>,
                   \<lparr>reg = [''a'' \<mapsto> Val ''b''], irr = {#}\<rparr>] 1) (Val ''a'') = Some (Val ''b'')"
    by (simp add: front_of_def m_at_def)
  have mu': "mutate [\<lparr>reg = [''a'' \<mapsto> Val ''b''], irr = {#}\<rparr>,
                     \<lparr>reg = [''a'' \<mapsto> Val ''b''], irr = {#}\<rparr>] 1 ?ms = Inr ?tus"
    using mu by simp
  from al ro fr hm mu' g1 vh hc r g2 c1 show ?thesis by blast
qed

end
